theory Spec2Isabelle
  imports Main "HOL-Library.Sublist"
begin

section \<open>Go values\<close>

text \<open>
  Go's \<^verbatim>\<open>int\<close> is modelled as \<^typ>\<open>int\<close>. The only arithmetic of the program is
  \<^verbatim>\<open>r.pos + 1\<close>, \<^verbatim>\<open>% r.size\<close>, \<^verbatim>\<open>data % 3\<close> and comparisons; \<^verbatim>\<open>r.pos + 1\<close> is at
  most the length of a slice whenever the buffer is well formed, so no operation
  of a well-formed buffer can overflow.

  Go's \<^verbatim>\<open>%\<close> truncates towards zero: the remainder has the sign of the dividend.
  A zero divisor panics; the callers below test for it before calling \<open>go_rem\<close>.
\<close>

definition go_rem :: "int \<Rightarrow> int \<Rightarrow> int" where
  "go_rem a b = sgn a * (\<bar>a\<bar> mod \<bar>b\<bar>)"

text \<open>The run-time panics the modelled code can raise.\<close>

datatype panic =
    DivideByZero
  | IndexOutOfRange
  | SliceBoundsOutOfRange
  | MakeLenOutOfRange
  | NegativeWaitGroupCounter
  | SendOnClosedChannel
  | CloseOfClosedChannel

section \<open>RingIntBuffer (src/cmd/main.go, lines 18-56)\<close>

text \<open>
  The struct, without its mutex: the sequential meaning of the methods does not
  depend on it. The lock discipline is modelled by the access traces further down.
  The field \<^verbatim>\<open>size\<close> is called \<open>size_rb\<close>.
\<close>

record RingIntBuffer =
  array :: "int list"
  pos :: int
  size_rb :: int

text \<open>
  \<^verbatim>\<open>make([]int, size)\<close> panics on a negative length and zeroes the slice (the limit of
  memory is not modelled). The constructor itself tests nothing.
\<close>

definition NewRingIntBuffer :: "int \<Rightarrow> panic + RingIntBuffer" where
  "NewRingIntBuffer n =
     (if n < 0 then Inl MakeLenOutOfRange
      else Inr \<lparr>array = replicate (nat n) 0, pos = - 1, size_rb = n\<rparr>)"

text \<open>
  \<^verbatim>\<open>r.pos = (r.pos + 1) % r.size; r.array[r.pos] = el\<close>.
  The modulo panics when \<^verbatim>\<open>r.size\<close> is 0, the store when the index is outside the slice.
\<close>

definition Push :: "RingIntBuffer \<Rightarrow> int \<Rightarrow> panic + RingIntBuffer" where
  "Push r el =
     (if size_rb r = 0 then Inl DivideByZero
      else
        let p = go_rem (pos r + 1) (size_rb r) in
        if p < 0 \<or> int (length (array r)) \<le> p then Inl IndexOutOfRange
        else Inr (r\<lparr>pos := p, array := (array r)[nat p := el]\<rparr>))"

text \<open>
  The value \<^verbatim>\<open>Get\<close> returns: \<^verbatim>\<open>nil\<close>, or the slice \<^verbatim>\<open>r.array[:n]\<close>, which shares the
  storage of \<^verbatim>\<open>r.array\<close> (no element is copied). \<open>elems\<close> reads a slice against the
  storage as it is at the time of the read.
\<close>

datatype slice = NilSlice | ArraySlice nat

fun elems :: "int list \<Rightarrow> slice \<Rightarrow> int list" where
  "elems a NilSlice = []"
| "elems a (ArraySlice n) = take n a"

text \<open>
  \<^verbatim>\<open>Get\<close> tests \<^verbatim>\<open>r.pos < 0\<close> first and returns \<^verbatim>\<open>nil\<close>; only then it takes the mutex
  and runs \<^verbatim>\<open>output := r.array[:r.pos+1]; r.pos = -1; return output\<close>, here \<open>Get_locked\<close>.
  The slice expression panics when \<^verbatim>\<open>r.pos + 1\<close> is negative or exceeds the capacity
  of \<^verbatim>\<open>r.array\<close>.
\<close>

definition Get_locked :: "RingIntBuffer \<Rightarrow> panic + (slice \<times> RingIntBuffer)" where
  "Get_locked r =
     (if pos r + 1 < 0 \<or> int (length (array r)) < pos r + 1 then Inl SliceBoundsOutOfRange
      else Inr (ArraySlice (nat (pos r + 1)), r\<lparr>pos := - 1\<rparr>))"

definition Get :: "RingIntBuffer \<Rightarrow> panic + (slice \<times> RingIntBuffer)" where
  "Get r = (if pos r < 0 then Inr (NilSlice, r) else Get_locked r)"

text \<open>A caller that pushes the items of a list one after the other.\<close>

fun Push_all :: "RingIntBuffer \<Rightarrow> int list \<Rightarrow> panic + RingIntBuffer" where
  "Push_all r [] = Inr r"
| "Push_all r (el # els) =
     (case Push r el of Inl e \<Rightarrow> Inl e | Inr r' \<Rightarrow> Push_all r' els)"

text \<open>
  The well-formedness of a buffer: the storage has \<^verbatim>\<open>size\<close> cells, \<^verbatim>\<open>size\<close> is at
  least 1 and the cursor is \<open>-1\<close> or an index of the storage.
\<close>

definition ring_inv :: "RingIntBuffer \<Rightarrow> bool" where
  "ring_inv r \<longleftrightarrow>
     1 \<le> size_rb r \<and> int (length (array r)) = size_rb r \<and> - 1 \<le> pos r \<and> pos r < size_rb r"

text \<open>
  The scenario of the capacity property: a new buffer of size \<open>n\<close>, the items pushed
  in order, one \<^verbatim>\<open>Get\<close>, and the returned slice read at once.
\<close>

definition fill_and_drain :: "int \<Rightarrow> int list \<Rightarrow> panic + int list" where
  "fill_and_drain n els =
     (case NewRingIntBuffer n of
        Inl e \<Rightarrow> Inl e
      | Inr r \<Rightarrow>
          (case Push_all r els of
             Inl e \<Rightarrow> Inl e
           | Inr r' \<Rightarrow>
               (case Get r' of
                  Inl e \<Rightarrow> Inl e
                | Inr (s, r'') \<Rightarrow> Inr (elems (array r'') s))))"

subsection \<open>The lock discipline of the methods\<close>

text \<open>
  What a method does to the shared struct, in program order: taking and releasing
  \<^verbatim>\<open>r.mu\<close>, and every read and write of a field. \<^verbatim>\<open>defer r.mu.Unlock()\<close> runs on every
  exit after the \<^verbatim>\<open>Lock\<close>, a panic included.
\<close>

datatype access = Lock | Unlock | ReadPos | WritePos int | ReadSize | ReadArray | WriteElem nat int

definition Push_accesses :: "RingIntBuffer \<Rightarrow> int \<Rightarrow> access list" where
  "Push_accesses r el =
     [Lock, ReadPos, ReadSize] @
     (if size_rb r = 0 then [Unlock]
      else
        let p = go_rem (pos r + 1) (size_rb r) in
        [WritePos p, ReadArray, ReadPos] @
        (if p < 0 \<or> int (length (array r)) \<le> p then [Unlock]
         else [WriteElem (nat p) el, Unlock]))"

definition Get_accesses :: "RingIntBuffer \<Rightarrow> access list" where
  "Get_accesses r =
     ReadPos #
     (if pos r < 0 then []
      else
        [Lock, ReadArray, ReadPos] @
        (if pos r + 1 < 0 \<or> int (length (array r)) < pos r + 1 then [Unlock]
         else [WritePos (- 1), Unlock]))"

text \<open>The writes of a trace, applied to the struct.\<close>

fun replay :: "RingIntBuffer \<Rightarrow> access list \<Rightarrow> RingIntBuffer" where
  "replay r [] = r"
| "replay r (WritePos p # acs) = replay (r\<lparr>pos := p\<rparr>) acs"
| "replay r (WriteElem i v # acs) = replay (r\<lparr>array := (array r)[i := v]\<rparr>) acs"
| "replay r (a # acs) = replay r acs"

text \<open>
  \<open>under_lock held acs\<close>: every read and write of \<open>acs\<close> happens while the mutex is
  held, \<open>held\<close> telling whether it is held at the start.
\<close>

fun under_lock :: "bool \<Rightarrow> access list \<Rightarrow> bool" where
  "under_lock held [] = True"
| "under_lock held (Lock # acs) = under_lock True acs"
| "under_lock held (Unlock # acs) = under_lock False acs"
| "under_lock held (a # acs) = (held \<and> under_lock held acs)"

section \<open>PipelineInt (src/cmd/main.go, lines 58-83)\<close>

text \<open>
  A stage takes the input channel and the cancellation channel and returns its
  output channel; it may create channels and start goroutines on the way. The type
  \<open>'w\<close> stands for what the run-time holds of these (the world), \<open>'c\<close> for channels of
  integers and \<open>'d\<close> for the cancellation channel. The field \<^verbatim>\<open>done\<close> is called
  \<open>done_ch\<close>.
\<close>

type_synonym ('c, 'd, 'w) StageInt = "'c \<Rightarrow> 'd \<Rightarrow> 'w \<Rightarrow> 'c \<times> 'w"

record ('c, 'd, 'w) PipelineInt =
  stages :: "('c, 'd, 'w) StageInt list"
  done_ch :: 'd

definition NewPipelineInt :: "'d \<Rightarrow> ('c, 'd, 'w) StageInt list \<Rightarrow> ('c, 'd, 'w) PipelineInt" where
  "NewPipelineInt dn sts = \<lparr>stages = sts, done_ch = dn\<rparr>"

text \<open>The loop \<^verbatim>\<open>for _, stage := range p.stages { c = stage(c, p.done) }\<close>.\<close>

fun Run_loop :: "('c, 'd, 'w) StageInt list \<Rightarrow> 'd \<Rightarrow> 'c \<Rightarrow> 'w \<Rightarrow> 'c \<times> 'w" where
  "Run_loop [] dn c w = (c, w)"
| "Run_loop (stage # rest) dn c w = (case stage c dn w of (c', w') \<Rightarrow> Run_loop rest dn c' w')"

definition Run :: "('c, 'd, 'w) PipelineInt \<Rightarrow> 'c \<Rightarrow> 'w \<Rightarrow> 'c \<times> 'w" where
  "Run p source w = Run_loop (stages p) (done_ch p) source w"

section \<open>The filter stages (src/cmd/main.go, lines 133-193)\<close>

text \<open>
  A channel of integers is modelled by the items sent on it before it is closed. A
  goroutine of a filter stage runs \<^verbatim>\<open>select\<close> once to receive and, for an item it
  forwards, once more to send; both have the case \<^verbatim>\<open><-done\<close>. Which \<^verbatim>\<open>select\<close> takes
  that case is not decided by the code (it depends on when \<^verbatim>\<open>done\<close> is closed and on the
  run-time's choice among ready cases): the model takes it as a parameter, \<open>Some k\<close>
  for the \<open>k\<close>-th \<^verbatim>\<open>select\<close> the goroutine runs, counted from 0, and \<open>None\<close> when the
  goroutine never takes it.
\<close>

fun tick :: "nat option \<Rightarrow> nat option" where
  "tick None = None"
| "tick (Some k) = Some (k - 1)"

fun negativeFilter_loop :: "nat option \<Rightarrow> int list \<Rightarrow> int list" where
  "negativeFilter_loop c [] = []"
| "negativeFilter_loop c (data # input) =
     (if c = Some 0 then []
      else if data \<ge> 0 then
        (if tick c = Some 0 then [] else data # negativeFilter_loop (tick (tick c)) input)
      else negativeFilter_loop (tick c) input)"

fun specialFilter_loop :: "nat option \<Rightarrow> int list \<Rightarrow> int list" where
  "specialFilter_loop c [] = []"
| "specialFilter_loop c (data # input) =
     (if c = Some 0 then []
      else if data \<noteq> 0 \<and> go_rem data 3 = 0 then
        (if tick c = Some 0 then [] else data # specialFilter_loop (tick (tick c)) input)
      else specialFilter_loop (tick c) input)"

text \<open>
  The stage functions: \<^verbatim>\<open>output := make(chan int); go func() {...}(); return output\<close>.
  The world counts the goroutines started.
\<close>

definition negativeFilterStageInt :: "nat option \<Rightarrow> (int list, 'd, nat) StageInt" where
  "negativeFilterStageInt c input dn w = (negativeFilter_loop c input, w + 1)"

definition specialFilterStageInt :: "nat option \<Rightarrow> (int list, 'd, nat) StageInt" where
  "specialFilterStageInt c input dn w = (specialFilter_loop c input, w + 1)"

section \<open>The buffering stage (src/cmd/main.go, lines 13-16 and 195-250)\<close>

definition bufferSize :: int where
  "bufferSize = 10"

text \<open>
  The stage runs four threads of control: the caller of \<^verbatim>\<open>bufferStageInt\<close>, which starts
  the others; the collector (first \<^verbatim>\<open>go func\<close>); the drainer (second); and the goroutine
  that waits for both and closes \<^verbatim>\<open>output\<close> (third). Each is a program counter; a run
  is a list of events, one atomic step of one thread each. Time is not modelled: the timer
  of \<^verbatim>\<open>time.After(bufferDrainInterval)\<close> may fire at any step.
\<close>

datatype collector = CNotStarted | CSelect | CExited

text \<open>
  \<open>DGet\<close>: inside \<^verbatim>\<open>Get\<close>, past the test of \<^verbatim>\<open>r.pos\<close>, before the mutex is taken.
  \<open>DRange i n\<close>: at the head of \<^verbatim>\<open>for _, v := range data\<close> with \<open>i\<close> items done,
  \<^verbatim>\<open>data\<close> being \<^verbatim>\<open>r.array[:n]\<close>. \<open>DSend v i n\<close>: in the inner \<^verbatim>\<open>select\<close>, holding \<open>v\<close>.
\<close>

datatype drainer = DNotStarted | DSelect | DGet | DRange nat nat | DSend int nat nat | DExited

text \<open>
  \<open>WWait\<close>: in \<^verbatim>\<open>wg.Wait()\<close>. \<open>WClose\<close>: \<^verbatim>\<open>wg.Wait()\<close> has returned, \<^verbatim>\<open>close(output)\<close> is next.
\<close>

datatype closer = WNotStarted | WWait | WClose | WExited

text \<open>
  The state of a run. \<open>main_pc\<close> counts the statements the caller has run of
  \<^verbatim>\<open>wg.Add(1)\<close>, \<^verbatim>\<open>go\<close> (collector), \<^verbatim>\<open>wg.Add(1)\<close>, \<^verbatim>\<open>go\<close> (drainer), \<^verbatim>\<open>go\<close> (closer);
  \<open>wg\<close> is the counter of the wait group; \<open>input\<close> holds the items the input channel
  still delivers, after which it is closed; \<open>cancelled\<close> tells whether \<^verbatim>\<open>done\<close> is closed;
  \<open>emitted\<close> holds the items sent on \<^verbatim>\<open>output\<close>, \<open>closes\<close> the number of times
  \<^verbatim>\<open>close(output)\<close> has run; \<open>crashed\<close> holds the panic that ended the program, if any.
\<close>

record stage_state =
  main_pc :: nat
  wg :: int
  cpc :: collector
  dpc :: drainer
  wpc :: closer
  buffer :: RingIntBuffer
  input :: "int list"
  cancelled :: bool
  output_closed :: bool
  closes :: nat
  emitted :: "int list"
  crashed :: "panic option"

datatype event =
    MainStep
  | Cancel
  | CollectorRecv
  | CollectorDone
  | DrainerTick
  | DrainerLocked
  | DrainerNext
  | DrainerSend
  | DrainerDone
  | CloserWake
  | CloserClose

text \<open>\<^verbatim>\<open>wg.Add(d)\<close>, and \<^verbatim>\<open>wg.Done()\<close> as \<^verbatim>\<open>wg.Add(-1)\<close>: a negative counter panics.\<close>

definition wg_Add :: "int \<Rightarrow> stage_state \<Rightarrow> stage_state" where
  "wg_Add d s =
     (if wg s + d < 0 then s\<lparr>crashed := Some NegativeWaitGroupCounter\<rparr>
      else s\<lparr>wg := wg s + d\<rparr>)"

text \<open>The drainer is in a \<^verbatim>\<open>select\<close> that has the case \<^verbatim>\<open><-done\<close>.\<close>

fun in_select :: "drainer \<Rightarrow> bool" where
  "in_select DSelect = True"
| "in_select (DSend v i n) = True"
| "in_select d = False"

text \<open>
  One step; \<open>None\<close> when the event is not enabled. \<^verbatim>\<open>Push\<close> and the locked part of
  \<^verbatim>\<open>Get\<close> are atomic (they hold the mutex); the test \<^verbatim>\<open>r.pos < 0\<close> of \<^verbatim>\<open>Get\<close> is a step of
  its own (\<open>DrainerTick\<close>), and so is every read of an element of the slice returned
  (\<open>DrainerNext\<close>), which reads the storage of the buffer as it is then.
\<close>

fun step_event :: "event \<Rightarrow> stage_state \<Rightarrow> stage_state option" where
  "step_event MainStep s =
     (if main_pc s = 0 then Some ((wg_Add 1 s)\<lparr>main_pc := 1\<rparr>)
      else if main_pc s = 1 then Some (s\<lparr>cpc := CSelect, main_pc := 2\<rparr>)
      else if main_pc s = 2 then Some ((wg_Add 1 s)\<lparr>main_pc := 3\<rparr>)
      else if main_pc s = 3 then Some (s\<lparr>dpc := DSelect, main_pc := 4\<rparr>)
      else if main_pc s = 4 then Some (s\<lparr>wpc := WWait, main_pc := 5\<rparr>)
      else None)"
| "step_event Cancel s =
     (if cancelled s then None else Some (s\<lparr>cancelled := True\<rparr>))"
| "step_event CollectorRecv s =
     (if cpc s = CSelect then
        (case input s of
           [] \<Rightarrow> Some (wg_Add (- 1) (s\<lparr>cpc := CExited\<rparr>))
         | data # rest \<Rightarrow>
             (case Push (buffer s) data of
                Inl e \<Rightarrow> Some (s\<lparr>crashed := Some e\<rparr>)
              | Inr b \<Rightarrow> Some (s\<lparr>buffer := b, input := rest\<rparr>)))
      else None)"
| "step_event CollectorDone s =
     (if cpc s = CSelect \<and> cancelled s then Some (wg_Add (- 1) (s\<lparr>cpc := CExited\<rparr>))
      else None)"
| "step_event DrainerTick s =
     (if dpc s = DSelect then
        (if pos (buffer s) < 0 then Some s else Some (s\<lparr>dpc := DGet\<rparr>))
      else None)"
| "step_event DrainerLocked s =
     (if dpc s = DGet then
        (case Get_locked (buffer s) of
           Inl e \<Rightarrow> Some (s\<lparr>crashed := Some e\<rparr>)
         | Inr (NilSlice, b) \<Rightarrow> Some (s\<lparr>buffer := b, dpc := DSelect\<rparr>)
         | Inr (ArraySlice n, b) \<Rightarrow> Some (s\<lparr>buffer := b, dpc := DRange 0 n\<rparr>))
      else None)"
| "step_event DrainerNext s =
     (case dpc s of
        DRange i n \<Rightarrow>
          (if i < n then Some (s\<lparr>dpc := DSend (array (buffer s) ! i) i n\<rparr>)
           else Some (s\<lparr>dpc := DSelect\<rparr>))
      | _ \<Rightarrow> None)"
| "step_event DrainerSend s =
     (case dpc s of
        DSend v i n \<Rightarrow>
          (if output_closed s then Some (s\<lparr>crashed := Some SendOnClosedChannel\<rparr>)
           else Some (s\<lparr>emitted := emitted s @ [v], dpc := DRange (Suc i) n\<rparr>))
      | _ \<Rightarrow> None)"
| "step_event DrainerDone s =
     (if in_select (dpc s) \<and> cancelled s then Some (wg_Add (- 1) (s\<lparr>dpc := DExited\<rparr>))
      else None)"
| "step_event CloserWake s =
     (if wpc s = WWait \<and> wg s = 0 then Some (s\<lparr>wpc := WClose\<rparr>) else None)"
| "step_event CloserClose s =
     (if wpc s = WClose then
        (if output_closed s then Some (s\<lparr>crashed := Some CloseOfClosedChannel\<rparr>)
         else Some (s\<lparr>output_closed := True, closes := Suc (closes s), wpc := WExited\<rparr>))
      else None)"

text \<open>A panic ends the program: no event is enabled after it.\<close>

definition step :: "event \<Rightarrow> stage_state \<Rightarrow> stage_state option" where
  "step e s = (if crashed s = None then step_event e s else None)"

text \<open>A schedule is a list of events; an event that is not enabled is skipped.\<close>

fun exec :: "event list \<Rightarrow> stage_state \<Rightarrow> stage_state" where
  "exec [] s = s"
| "exec (e # es) s = (case step e s of None \<Rightarrow> exec es s | Some s' \<Rightarrow> exec es s')"

text \<open>
  The state when \<^verbatim>\<open>bufferStageInt\<close> has made \<^verbatim>\<open>output\<close> and the buffer \<open>b\<close>, and the stage
  run on a schedule from there.
\<close>

definition stage_start :: "int list \<Rightarrow> RingIntBuffer \<Rightarrow> stage_state" where
  "stage_start inp b =
     \<lparr>main_pc = 0, wg = 0, cpc = CNotStarted, dpc = DNotStarted, wpc = WNotStarted,
      buffer = b, input = inp, cancelled = False, output_closed = False, closes = 0,
      emitted = [], crashed = None\<rparr>"

definition bufferStage_run :: "event list \<Rightarrow> int list \<Rightarrow> panic + stage_state" where
  "bufferStage_run evs inp =
     (case NewRingIntBuffer bufferSize of
        Inl e \<Rightarrow> Inl e
      | Inr b \<Rightarrow> Inr (exec evs (stage_start inp b)))"

text \<open>
  The stage function: the output channel carries what the drainer sent; three
  goroutines are started.
\<close>

definition bufferStage_output :: "event list \<Rightarrow> int list \<Rightarrow> int list" where
  "bufferStage_output evs inp =
     (case bufferStage_run evs inp of Inl e \<Rightarrow> [] | Inr s \<Rightarrow> emitted s)"

definition bufferStageInt :: "event list \<Rightarrow> (int list, 'd, nat) StageInt" where
  "bufferStageInt evs inp dn w = (bufferStage_output evs inp, w + 3)"

text \<open>
  The pipeline of \<^verbatim>\<open>main\<close>: the three stages in the order in which \<^verbatim>\<open>NewPipelineInt\<close>
  receives them.
\<close>

definition main_pipeline ::
    "nat option \<Rightarrow> nat option \<Rightarrow> event list \<Rightarrow> (int list, unit, nat) PipelineInt" where
  "main_pipeline c1 c2 evs =
     NewPipelineInt () [negativeFilterStageInt c1, specialFilterStageInt c2, bufferStageInt evs]"

text \<open>
  The schedule of the end-to-end scenario: the stage is started, the collector takes
  the four items, the timer fires once, and the drainer sends what \<^verbatim>\<open>Get\<close> returned.
\<close>

definition one_drain :: "event list" where
  "one_drain =
     replicate 5 MainStep @ replicate 4 CollectorRecv @ [DrainerTick, DrainerLocked]
     @ concat (replicate 4 [DrainerNext, DrainerSend]) @ [DrainerNext]"

text \<open>
  A schedule with a cancellation: one item is collected, drained and sent, then
  \<^verbatim>\<open>done\<close> is closed, both workers return and \<^verbatim>\<open>wg.Wait()\<close> returns.
\<close>

definition cancelled_run :: "event list" where
  "cancelled_run =
     replicate 5 MainStep @
     [CollectorRecv, DrainerTick, DrainerLocked, DrainerNext, DrainerSend, Cancel,
      CollectorDone, DrainerNext, DrainerDone, CloserWake]"

text \<open>The events of the stage's own threads (all but the cancellation).\<close>

definition worker_events :: "event list" where
  "worker_events =
     [MainStep, CollectorRecv, CollectorDone, DrainerTick, DrainerLocked, DrainerNext,
      DrainerSend, DrainerDone, CloserWake, CloserClose]"

text \<open>No thread of the stage can take a step.\<close>

definition quiescent :: "stage_state \<Rightarrow> bool" where
  "quiescent s = list_all (\<lambda>e. step e s = None) worker_events"

text \<open>The drainer is not started, at its outer \<^verbatim>\<open>select\<close>, or has returned.\<close>

fun waiting :: "drainer \<Rightarrow> bool" where
  "waiting DNotStarted = True"
| "waiting DSelect = True"
| "waiting DExited = True"
| "waiting d = False"

text \<open>
  The invariant of the stage. The counter of the wait group is the number of workers
  whose \<^verbatim>\<open>wg.Add(1)\<close> has run and whose \<^verbatim>\<open>wg.Done()\<close> has not; the closing goroutine is
  past \<^verbatim>\<open>wg.Wait()\<close> only when both workers have returned; \<^verbatim>\<open>output\<close> is closed exactly
  when the closing goroutine has run \<^verbatim>\<open>close(output)\<close>; the buffer is well formed and the
  slice the drainer ranges over lies within its storage.
\<close>

fun slice_ok :: "drainer \<Rightarrow> nat \<Rightarrow> bool" where
  "slice_ok (DRange i n) len = (n \<le> len)"
| "slice_ok (DSend v i n) len = (i < n \<and> n \<le> len)"
| "slice_ok d len = True"

definition stage_inv :: "stage_state \<Rightarrow> bool" where
  "stage_inv s \<longleftrightarrow>
     crashed s = None \<and> main_pc s \<le> 5
     \<and> (cpc s = CNotStarted \<longleftrightarrow> main_pc s \<le> 1)
     \<and> (dpc s = DNotStarted \<longleftrightarrow> main_pc s \<le> 3)
     \<and> (wpc s = WNotStarted \<longleftrightarrow> main_pc s \<le> 4)
     \<and> wg s = (if 1 \<le> main_pc s \<and> cpc s \<noteq> CExited then 1 else 0)
              + (if 3 \<le> main_pc s \<and> dpc s \<noteq> DExited then 1 else 0)
     \<and> (wpc s = WClose \<or> wpc s = WExited \<longrightarrow> cpc s = CExited \<and> dpc s = DExited)
     \<and> (output_closed s \<longleftrightarrow> wpc s = WExited)
     \<and> closes s = (if wpc s = WExited then 1 else 0)
     \<and> ring_inv (buffer s)
     \<and> slice_ok (dpc s) (length (array (buffer s)))"

text \<open>
  A schedule that shuts the stage down from any state: the caller finishes starting the
  goroutines, \<^verbatim>\<open>done\<close> is closed, the collector takes \<^verbatim>\<open><-done\<close>, the drainer leaves \<^verbatim>\<open>Get\<close>
  and its \<^verbatim>\<open>range\<close> loop for the next \<^verbatim>\<open>select\<close> and takes \<^verbatim>\<open><-done\<close>, \<^verbatim>\<open>wg.Wait()\<close> returns and
  \<^verbatim>\<open>close(output)\<close> runs. An event that is not enabled is skipped.
\<close>

definition shutdown :: "event list" where
  "shutdown =
     replicate 5 MainStep @
     [Cancel, CollectorDone, DrainerLocked, DrainerNext, DrainerDone, CloserWake, CloserClose]"

text \<open>The caller of \<^verbatim>\<open>bufferStageInt\<close> has started the three goroutines.\<close>

definition started :: "stage_state \<Rightarrow> bool" where
  "started s \<longleftrightarrow> stage_inv s \<and> main_pc s = 5"

text \<open>
  The input is exhausted, the buffer is empty since the last \<^verbatim>\<open>Get\<close>, and the drainer is
  not sending.
\<close>

definition drained :: "stage_state \<Rightarrow> bool" where
  "drained s \<longleftrightarrow> input s = [] \<and> pos (buffer s) < 0 \<and> waiting (dpc s)"

text \<open>
  The state when the four items of the scenario have been collected, drained and sent
  and the collector has found its input closed and returned; \<^verbatim>\<open>done\<close> is not closed.
\<close>

definition input_exhausted :: stage_state where
  "input_exhausted =
     \<lparr>main_pc = 5, wg = 1, cpc = CExited, dpc = DSelect, wpc = WWait,
      buffer = \<lparr>array = [3, 6, 9, 12, 0, 0, 0, 0, 0, 0], pos = - 1, size_rb = 10\<rparr>,
      input = [], cancelled = False, output_closed = False, closes = 0,
      emitted = [3, 6, 9, 12], crashed = None\<rparr>"

section \<open>Ring buffer: basic facts\<close>

lemma go_rem_nonneg: "0 \<le> a \<Longrightarrow> 0 < b \<Longrightarrow> go_rem a b = a mod b"
  by (cases "a = 0") (simp_all add: go_rem_def)

lemma New_ok: "0 \<le> n \<Longrightarrow> NewRingIntBuffer n = Inr \<lparr>array = replicate (nat n) 0, pos = - 1, size_rb = n\<rparr>"
  by (simp add: NewRingIntBuffer_def)

lemma ring_inv_New: "1 \<le> n \<Longrightarrow> NewRingIntBuffer n = Inr r \<Longrightarrow> ring_inv r"
  by (auto simp: NewRingIntBuffer_def ring_inv_def)

lemma Push_ok:
  assumes "ring_inv r"
  shows "Push r el = Inr (r\<lparr>pos := (pos r + 1) mod size_rb r,
                           array := (array r)[nat ((pos r + 1) mod size_rb r) := el]\<rparr>)"
proof -
  from assms have s: "0 < size_rb r" and p: "0 \<le> pos r + 1"
    and l: "int (length (array r)) = size_rb r"
    by (simp_all add: ring_inv_def)
  have g: "go_rem (pos r + 1) (size_rb r) = (pos r + 1) mod size_rb r"
    using p s by (rule go_rem_nonneg)
  have "\<not> (pos r + 1) mod size_rb r < 0" and "\<not> size_rb r \<le> (pos r + 1) mod size_rb r"
    using s by (simp_all add: not_less not_le)
  then show ?thesis
    using s l by (simp add: Push_def g Let_def del: not_less not_le)
qed

lemma ring_inv_Push:
  assumes "ring_inv r" and "Push r el = Inr r'"
  shows "ring_inv r'"
proof -
  from assms(1) have s: "0 < size_rb r" by (simp add: ring_inv_def)
  have "0 \<le> (pos r + 1) mod size_rb r" and "(pos r + 1) mod size_rb r < size_rb r"
    using s by simp_all
  then show ?thesis
    using assms Push_ok [OF assms(1), of el] by (auto simp: ring_inv_def)
qed

lemma Get_ok:
  assumes "ring_inv r"
  shows "Get r = (if pos r < 0 then Inr (NilSlice, r)
                  else Inr (ArraySlice (nat (pos r + 1)), r\<lparr>pos := - 1\<rparr>))"
  using assms by (auto simp: Get_def Get_locked_def ring_inv_def)

lemma ring_inv_Get:
  assumes "ring_inv r" and "Get r = Inr (s, r')"
  shows "ring_inv r'"
  using assms by (auto simp: Get_def Get_locked_def ring_inv_def split: if_splits)

lemma go_rem_small: "0 \<le> a \<Longrightarrow> a < b \<Longrightarrow> go_rem a b = a"
  by (simp add: go_rem_nonneg)

lemma take_as_map_nth: "n \<le> length xs \<Longrightarrow> take n xs = map (\<lambda>i. xs ! i) [0..<n]"
  by (rule nth_equalityI) simp_all

section \<open>Ring buffer: the cursor invariant\<close>

text \<open>
  Claim C10. A buffer made by \<open>NewRingIntBuffer n\<close> with \<open>1 \<le> n\<close> is well formed
  (\<open>ring_inv\<close>: \<open>-1 \<le> pos < size\<close>, the storage has \<open>size\<close> cells, \<open>1 \<le> size\<close>). On a
  well-formed buffer \<open>Push\<close> does not panic (neither in the modulo nor in the store),
  writes at an index of the storage and leaves the buffer well formed; \<open>Get\<close> does not
  panic, returns a slice within the storage and leaves the buffer well formed. The
  constructor does not test its argument: \<open>NewRingIntBuffer 0\<close> returns a buffer, on
  which the first \<open>Push\<close> panics with a division by zero.
\<close>

theorem ring_invariant:
  "(1 \<le> n \<longrightarrow> (\<exists>r. NewRingIntBuffer n = Inr r \<and> ring_inv r))
   \<and> (ring_inv r \<longrightarrow> (\<exists>r'. Push r el = Inr r' \<and> ring_inv r'
          \<and> 0 \<le> pos r' \<and> pos r' < int (length (array r)) \<and> size_rb r' = size_rb r))
   \<and> (ring_inv r \<longrightarrow> (\<exists>s r'. Get r = Inr (s, r') \<and> ring_inv r' \<and> size_rb r' = size_rb r
          \<and> length (elems (array r) s) \<le> length (array r)))
   \<and> (\<exists>r0. NewRingIntBuffer 0 = Inr r0 \<and> Push r0 el = Inl DivideByZero)"
proof (intro conjI impI)
  assume "1 \<le> n"
  then show "\<exists>r. NewRingIntBuffer n = Inr r \<and> ring_inv r"
    by (simp add: NewRingIntBuffer_def ring_inv_def)
next
  assume i: "ring_inv r"
  let ?r' = "r\<lparr>pos := (pos r + 1) mod size_rb r,
                array := (array r)[nat ((pos r + 1) mod size_rb r) := el]\<rparr>"
  have p: "Push r el = Inr ?r'" using i by (rule Push_ok)
  have "ring_inv ?r'" using i p by (rule ring_inv_Push)
  moreover have "0 \<le> pos ?r'" "pos ?r' < int (length (array r))"
    using i by (simp_all add: ring_inv_def)
  ultimately show "\<exists>r'. Push r el = Inr r' \<and> ring_inv r'
          \<and> 0 \<le> pos r' \<and> pos r' < int (length (array r)) \<and> size_rb r' = size_rb r"
    using p by simp
next
  assume i: "ring_inv r"
  then show "\<exists>s r'. Get r = Inr (s, r') \<and> ring_inv r' \<and> size_rb r' = size_rb r
          \<and> length (elems (array r) s) \<le> length (array r)"
    by (auto simp: Get_ok ring_inv_def)
next
  show "\<exists>r0. NewRingIntBuffer 0 = Inr r0 \<and> Push r0 el = Inl DivideByZero"
    by (simp add: NewRingIntBuffer_def Push_def)
qed

theorem ring_invariant_witness:
  "ring_inv \<lparr>array = [3, 6, 9], pos = 2, size_rb = 3\<rparr>
   \<and> NewRingIntBuffer 3 = Inr \<lparr>array = [0, 0, 0], pos = - 1, size_rb = 3\<rparr>
   \<and> Push \<lparr>array = [3, 6, 9], pos = 2, size_rb = 3\<rparr> 12
       = Inr \<lparr>array = [12, 6, 9], pos = 0, size_rb = 3\<rparr>
   \<and> Get \<lparr>array = [3, 6, 9], pos = 2, size_rb = 3\<rparr>
       = Inr (ArraySlice 3, \<lparr>array = [3, 6, 9], pos = - 1, size_rb = 3\<rparr>)"
  using ring_invariant [of 3 "\<lparr>array = [3, 6, 9], pos = 2, size_rb = 3\<rparr>" 12]
  by (simp add: ring_inv_def NewRingIntBuffer_def Push_def Get_def Get_locked_def go_rem_def
      numeral_3_eq_3)

section \<open>Ring buffer: draining\<close>

text \<open>
  Claim C3. On a buffer whose cursor is an index of the storage (\<open>0 \<le> pos\<close>, and
  \<open>pos\<close> below the length of the storage, as in every well-formed buffer), \<open>Get\<close>
  returns the slice of the entries at the indices \<open>0\<close> to \<open>pos\<close> inclusive, in array
  order; afterwards the cursor is \<open>-1\<close> and the storage and the size are unchanged.
\<close>

theorem Get_returns_indices_upto_pos:
  assumes "0 \<le> pos r" and "pos r < int (length (array r))"
  shows "\<exists>s r'. Get r = Inr (s, r')
           \<and> elems (array r') s = map (\<lambda>i. array r ! i) [0..<nat (pos r) + 1]
           \<and> length (elems (array r') s) = nat (pos r) + 1
           \<and> pos r' = - 1 \<and> array r' = array r \<and> size_rb r' = size_rb r"
proof -
  have n: "nat (pos r + 1) = nat (pos r) + 1" using assms(1) by simp
  have g: "Get r = Inr (ArraySlice (nat (pos r) + 1), r\<lparr>pos := - 1\<rparr>)"
    using assms by (simp add: Get_def Get_locked_def n)
  have l: "nat (pos r) + 1 \<le> length (array r)" using assms by simp
  show ?thesis
    unfolding g using l by (simp add: take_as_map_nth)
qed

theorem Get_returns_indices_upto_pos_witness:
  "Get \<lparr>array = [3, 6, 9], pos = 1, size_rb = 3\<rparr>
     = Inr (ArraySlice 2, \<lparr>array = [3, 6, 9], pos = - 1, size_rb = 3\<rparr>)
   \<and> elems [3, 6, 9] (ArraySlice 2) = [3, 6]"
  using Get_returns_indices_upto_pos [of "\<lparr>array = [3, 6, 9], pos = 1, size_rb = 3\<rparr>"]
  by (simp add: Get_def Get_locked_def)

text \<open>
  Claim C7. \<open>Get\<close> on a new buffer, and on any buffer whose cursor is negative,
  returns \<^verbatim>\<open>nil\<close> and no panic, and leaves the buffer as it is; and whenever a \<open>Get\<close>
  has returned, a second \<open>Get\<close> with no \<open>Push\<close> in between returns \<^verbatim>\<open>nil\<close>.
\<close>

theorem Get_empty_is_nil:
  "(NewRingIntBuffer n = Inr r0 \<longrightarrow> Get r0 = Inr (NilSlice, r0))
   \<and> (pos r < 0 \<longrightarrow> Get r = Inr (NilSlice, r))
   \<and> (Get r1 = Inr (s, r2) \<longrightarrow> Get r2 = Inr (NilSlice, r2))"
  by (auto simp: NewRingIntBuffer_def Get_def Get_locked_def split: if_splits)

theorem Get_empty_is_nil_witness:
  "NewRingIntBuffer 10 = Inr \<lparr>array = replicate 10 0, pos = - 1, size_rb = 10\<rparr>
   \<and> Get \<lparr>array = replicate 10 0, pos = - 1, size_rb = 10\<rparr>
       = Inr (NilSlice, \<lparr>array = replicate 10 0, pos = - 1, size_rb = 10\<rparr>)
   \<and> Get \<lparr>array = [3, 6, 9], pos = 1, size_rb = 3\<rparr>
       = Inr (ArraySlice 2, \<lparr>array = [3, 6, 9], pos = - 1, size_rb = 3\<rparr>)
   \<and> Get \<lparr>array = [3, 6, 9], pos = - 1, size_rb = 3\<rparr>
       = Inr (NilSlice, \<lparr>array = [3, 6, 9], pos = - 1, size_rb = 3\<rparr>)"
  using Get_empty_is_nil [of 10 "\<lparr>array = replicate 10 0, pos = - 1, size_rb = 10\<rparr>"
      "\<lparr>array = [3, 6, 9], pos = - 1, size_rb = 3\<rparr>"
      "\<lparr>array = [3, 6, 9], pos = 1, size_rb = 3\<rparr>" "ArraySlice 2"
      "\<lparr>array = [3, 6, 9], pos = - 1, size_rb = 3\<rparr>"]
  by (simp add: NewRingIntBuffer_def Get_def Get_locked_def)

section \<open>Ring buffer: capacity and wrap-around\<close>

lemma Push_partial:
  assumes "size_rb r = int (length (array r))" and "array r = ys @ z # zs"
    and "pos r = int (length ys) - 1"
  shows "Push r el = Inr (r\<lparr>pos := int (length ys), array := ys @ el # zs\<rparr>)"
proof -
  have s: "size_rb r = int (length ys) + 1 + int (length zs)"
    using assms by simp
  show ?thesis
    using s assms by (simp add: Push_def go_rem_small Let_def list_update_append)
qed

lemma Push_all_partial:
  assumes "size_rb r = int (length (array r))" and "array r = ys @ zs"
    and "pos r = int (length ys) - 1" and "length xs \<le> length zs"
  shows "Push_all r xs =
           Inr (r\<lparr>pos := int (length ys + length xs) - 1, array := ys @ xs @ drop (length xs) zs\<rparr>)"
  using assms
proof (induction xs arbitrary: r ys zs)
  case Nil
  then show ?case by simp
next
  case (Cons x xs)
  then obtain z zs' where zs: "zs = z # zs'" by (cases zs) auto
  let ?r' = "r\<lparr>pos := int (length ys), array := ys @ x # zs'\<rparr>"
  have p: "Push r x = Inr ?r'"
    using Cons.prems zs by (intro Push_partial) simp_all
  have "Push_all ?r' xs =
          Inr (?r'\<lparr>pos := int (length (ys @ [x]) + length xs) - 1,
                    array := (ys @ [x]) @ xs @ drop (length xs) zs'\<rparr>)"
    using Cons.prems zs by (intro Cons.IH) simp_all
  then show ?case
    using p zs by simp
qed

lemma Push_wrap:
  assumes "1 \<le> size_rb r" and "pos r = size_rb r - 1"
  shows "Push r el = Push (r\<lparr>pos := - 1\<rparr>) el"
  using assms by (simp add: Push_def go_rem_def Let_def)

lemma Push_all_append:
  "Push_all r (xs @ ys) = (case Push_all r xs of Inl e \<Rightarrow> Inl e | Inr r' \<Rightarrow> Push_all r' ys)"
  by (induction xs arbitrary: r) (auto split: sum.splits)

text \<open>Exactly \<open>size\<close> items pushed: the drain returns them, in the order pushed.\<close>

lemma fill_exact:
  assumes "1 \<le> n" and "length els = nat n"
  shows "fill_and_drain n els = Inr els"
proof -
  let ?r = "\<lparr>array = replicate (nat n) 0, pos = - 1, size_rb = n\<rparr>"
  have "Push_all ?r els =
          Inr (?r\<lparr>pos := int (length ([]::int list) + length els) - 1,
                   array := [] @ els @ drop (length els) (replicate (nat n) 0)\<rparr>)"
    using assms by (intro Push_all_partial) simp_all
  then show ?thesis
    using assms by (simp add: fill_and_drain_def NewRingIntBuffer_def Get_def Get_locked_def)
qed

text \<open>
  \<open>size + k\<close> items pushed, \<open>0 < k < size\<close>: the drain returns the last \<open>k\<close> items
  pushed and nothing else.
\<close>

lemma fill_wrap:
  assumes "0 < k" and "k < nat n" and "length els = nat n + k"
  shows "fill_and_drain n els = Inr (drop (nat n) els)"
proof -
  let ?r = "\<lparr>array = replicate (nat n) 0, pos = - 1, size_rb = n\<rparr>"
  let ?xs = "take (nat n) els" and ?ys = "drop (nat n) els"
  have lx: "length ?xs = nat n" and ly: "length ?ys = k"
    using assms by simp_all
  obtain y ys' where ys: "?ys = y # ys'"
    using ly assms(1) by (cases ?ys) auto
  let ?r1 = "?r\<lparr>pos := n - 1, array := ?xs\<rparr>"
  have "Push_all ?r ?xs =
          Inr (?r\<lparr>pos := int (length ([]::int list) + length ?xs) - 1,
                   array := [] @ ?xs @ drop (length ?xs) (replicate (nat n) 0)\<rparr>)"
    using assms by (intro Push_all_partial) simp_all
  then have 1: "Push_all ?r ?xs = Inr ?r1"
    using assms lx by simp
  have w: "Push_all ?r1 ?ys = Push_all (?r1\<lparr>pos := - 1\<rparr>) ?ys"
    using assms Push_wrap [of ?r1 y] by (simp add: ys)
  have "Push_all (?r1\<lparr>pos := - 1\<rparr>) ?ys =
          Inr (?r1\<lparr>pos := - 1\<rparr>\<lparr>pos := int (length ([]::int list) + length ?ys) - 1,
                   array := [] @ ?ys @ drop (length ?ys) ?xs\<rparr>)"
    using assms lx ly by (intro Push_all_partial) simp_all
  with w have 2: "Push_all ?r1 ?ys = Inr (?r1\<lparr>pos := int k - 1, array := ?ys @ drop k ?xs\<rparr>)"
    using ly by simp
  have "Push_all ?r els = Push_all ?r (?xs @ ?ys)" by simp
  also have "\<dots> = Inr (?r1\<lparr>pos := int k - 1, array := ?ys @ drop k ?xs\<rparr>)"
    unfolding Push_all_append 1 using 2 by simp
  finally show ?thesis
    using assms ly by (simp add: fill_and_drain_def NewRingIntBuffer_def Get_def Get_locked_def)
qed

text \<open>
  Claim C1. The first half holds (\<open>fill_exact\<close>). The second half fails: with a
  buffer of size 3, pushing 10, 20, 30, 40 and draining returns the single item 40,
  not three items; 20 and 30, pushed and never overwritten, are not returned
  (\<open>fill_wrap\<close> is the general case).
\<close>

theorem wrapped_drain_returns_only_newest:
  "fill_and_drain 3 [10, 20, 30] = Inr [10, 20, 30]
   \<and> fill_and_drain 3 [10, 20, 30, 40] = Inr [40]
   \<and> length [40::int] \<noteq> 3"
  by (simp add: fill_and_drain_def NewRingIntBuffer_def Push_def Get_def Get_locked_def
      go_rem_def numeral_3_eq_3)

section \<open>Ring buffer: the lock discipline\<close>

text \<open>The traces write what the methods write.\<close>

lemma replay_Push: "Push r el = Inr r' \<Longrightarrow> replay r (Push_accesses r el) = r'"
  by (auto simp: Push_def Push_accesses_def Let_def split: if_splits)

lemma replay_Get: "Get r = Inr (s, r') \<Longrightarrow> replay r (Get_accesses r) = r'"
  by (auto simp: Get_def Get_locked_def Get_accesses_def split: if_splits)

text \<open>
  Claim C2. On every buffer the first access of \<open>Get\<close> is the read of \<^verbatim>\<open>r.pos\<close> by
  the test \<^verbatim>\<open>r.pos < 0\<close>, made before \<^verbatim>\<open>r.mu.Lock()\<close>: the accesses of \<open>Get\<close> are not all
  under the lock, while those of \<open>Push\<close> are.
\<close>

theorem Get_reads_pos_without_lock:
  "hd (Get_accesses r) = ReadPos \<and> \<not> under_lock False (Get_accesses r)
   \<and> under_lock False (Push_accesses r el)"
  by (simp add: Get_accesses_def Push_accesses_def Let_def)

section \<open>The filter stages\<close>

lemma go_rem_3_dvd: "go_rem v 3 = 0 \<longleftrightarrow> 3 dvd v"
proof -
  have "go_rem v 3 = 0 \<longleftrightarrow> \<bar>v\<bar> mod 3 = 0"
    by (auto simp: go_rem_def sgn_if)
  also have "\<dots> \<longleftrightarrow> 3 dvd \<bar>v\<bar>" by presburger
  also have "\<dots> \<longleftrightarrow> 3 dvd v" by simp
  finally show ?thesis .
qed

lemma negativeFilter_loop_None: "negativeFilter_loop None xs = filter (\<lambda>v. 0 \<le> v) xs"
  by (induction xs) simp_all

lemma negativeFilter_loop_prefix:
  "prefix (negativeFilter_loop c xs) (filter (\<lambda>v. 0 \<le> v) xs)"
  by (induction c xs rule: negativeFilter_loop.induct) simp_all

lemma specialFilter_loop_None:
  "specialFilter_loop None xs = filter (\<lambda>v. v \<noteq> 0 \<and> go_rem v 3 = 0) xs"
  by (induction xs) simp_all

lemma specialFilter_loop_prefix:
  "prefix (specialFilter_loop c xs) (filter (\<lambda>v. v \<noteq> 0 \<and> go_rem v 3 = 0) xs)"
  by (induction c xs rule: specialFilter_loop.induct) simp_all

text \<open>
  Claim C6. A goroutine of the negative filter that never takes the case \<^verbatim>\<open><-done\<close>
  sends exactly the items \<open>v\<close> of its input with \<open>0 \<le> v\<close>, each as often as it comes and
  in the order of the input; an item is in the output if and only if it is in the input and
  is not negative. With a cancellation the output is a prefix of that.
\<close>

theorem negativeFilter_forwards_nonnegative:
  "negativeFilter_loop None xs = filter (\<lambda>v. 0 \<le> v) xs
   \<and> (v \<in> set (negativeFilter_loop None xs) \<longleftrightarrow> v \<in> set xs \<and> 0 \<le> v)
   \<and> subseq (negativeFilter_loop None xs) xs
   \<and> prefix (negativeFilter_loop c xs) (negativeFilter_loop None xs)
   \<and> fst (negativeFilterStageInt None xs dn w) = filter (\<lambda>v. 0 \<le> v) xs"
  using negativeFilter_loop_prefix [of c xs]
  by (auto simp: negativeFilter_loop_None negativeFilterStageInt_def)

text \<open>
  Claim C5. A goroutine of the multiple-of-three filter that never takes the case
  \<^verbatim>\<open><-done\<close> sends exactly the items \<open>v\<close> of its input with \<open>v \<noteq> 0\<close> and \<^verbatim>\<open>v % 3 == 0\<close>
  (Go's remainder, which is 0 exactly for the multiples of 3); of 0, -3, 3, 9, 5 it sends
  -3, 3, 9. With a cancellation the output is a prefix of that.
\<close>

theorem specialFilter_forwards_nonzero_multiples_of_three:
  "specialFilter_loop None xs = filter (\<lambda>v. v \<noteq> 0 \<and> go_rem v 3 = 0) xs
   \<and> (v \<in> set (specialFilter_loop None xs) \<longleftrightarrow> v \<in> set xs \<and> v \<noteq> 0 \<and> go_rem v 3 = 0)
   \<and> (go_rem v 3 = 0 \<longleftrightarrow> 3 dvd v)
   \<and> specialFilter_loop None [0, - 3, 3, 9, 5] = [- 3, 3, 9]
   \<and> prefix (specialFilter_loop c xs) (specialFilter_loop None xs)
   \<and> fst (specialFilterStageInt None xs dn w) = filter (\<lambda>v. v \<noteq> 0 \<and> go_rem v 3 = 0) xs"
  using specialFilter_loop_prefix [of c xs] go_rem_3_dvd [of v]
  by (auto simp: specialFilter_loop_None specialFilterStageInt_def go_rem_def)

section \<open>The pipeline\<close>

lemma Run_loop_append:
  "Run_loop (sts @ sts') dn c w = (case Run_loop sts dn c w of (c', w') \<Rightarrow> Run_loop sts' dn c' w')"
  by (induction sts arbitrary: c w) (auto split: prod.splits)

lemma Run_loop_foldl:
  "Run_loop sts dn c w = foldl (\<lambda>(c', w') st. st c' dn w') (c, w) sts"
  by (induction sts arbitrary: c w) (auto split: prod.splits)

lemma Run_loop_spawns:
  fixes g :: "'w \<Rightarrow> nat"
  shows "list_all2 (\<lambda>st k. \<forall>c d w. g (snd (st c d w)) = g w + k) sts ks
   \<Longrightarrow> g (snd (Run_loop sts dn c w)) = g w + sum_list ks"
proof (induction sts arbitrary: ks c w)
  case Nil
  then show ?case by simp
next
  case (Cons st sts)
  then obtain k ks' where ks: "ks = k # ks'"
    and st: "\<forall>c d w. g (snd (st c d w)) = g w + k"
    and rest: "list_all2 (\<lambda>st k. \<forall>c d w. g (snd (st c d w)) = g w + k) sts ks'"
    by (auto simp: list_all2_Cons1)
  obtain c' w' where r: "st c dn w = (c', w')" by (cases "st c dn w")
  have "g w' = g w + k" using st r by (metis snd_conv)
  moreover have "g (snd (Run_loop sts dn c' w')) = g w' + sum_list ks'"
    using rest by (rule Cons.IH)
  ultimately show ?case using r ks by simp
qed

text \<open>
  Claim C8. \<open>Run\<close> on no stage returns the source and leaves the world as it is; on a
  list of stages it applies the first stage to the source and the cancellation channel
  of the pipeline and goes on with that stage's output; what it returns is the output
  of the last stage, applied to what the stages before it return; it is the fold of
  \<^verbatim>\<open>c = stage(c, p.done)\<close> over the stages in their order. \<open>Run\<close> starts nothing of its
  own: when each stage adds a given number to a count \<open>g\<close> of the world (the goroutines
  started), \<open>Run\<close> adds the sum of these numbers.
\<close>

theorem Run_composes_stages:
  fixes g :: "'w \<Rightarrow> nat"
  shows "Run (NewPipelineInt dn []) source w = (source, w)
   \<and> Run (NewPipelineInt dn (st # sts)) source w
       = (case st source dn w of (c, w') \<Rightarrow> Run (NewPipelineInt dn sts) c w')
   \<and> Run (NewPipelineInt dn (sts @ [st])) source w
       = (case Run (NewPipelineInt dn sts) source w of (c, w') \<Rightarrow> st c dn w')
   \<and> Run p source w = foldl (\<lambda>(c, w') st. st c (done_ch p) w') (source, w) (stages p)
   \<and> (list_all2 (\<lambda>st k. \<forall>c d w. g (snd (st c d w)) = g w + k) sts ks
        \<longrightarrow> g (snd (Run (NewPipelineInt dn sts) source w)) = g w + sum_list ks)"
  by (auto simp: Run_def NewPipelineInt_def Run_loop_append Run_loop_foldl [symmetric]
      Run_loop_spawns split: prod.splits)

theorem Run_composes_stages_witness:
  "list_all2 (\<lambda>st k. \<forall>c d w. snd (st c (d::unit) w) = w + k)
     [negativeFilterStageInt None, specialFilterStageInt None, bufferStageInt []] [1, 1, 3]
   \<and> snd (Run (main_pipeline None None []) [- 5, 3, 0, 6, 7, 9, - 3, 12] 0) = 5"
proof -
  let ?sts = "[negativeFilterStageInt None, specialFilterStageInt None, bufferStageInt []]
                :: (int list, unit, nat) StageInt list"
  have pre: "list_all2 (\<lambda>st k. \<forall>c d w. snd (st c (d::unit) w) = w + k) ?sts [1, 1, 3]"
    by (simp add: negativeFilterStageInt_def specialFilterStageInt_def bufferStageInt_def)
  have "list_all2 (\<lambda>st k. \<forall>c d w. snd (st c d w) = w + k) ?sts [1, 1, 3]
        \<longrightarrow> snd (Run (NewPipelineInt () ?sts) [- 5, 3, 0, 6, 7, 9, - 3, 12] 0) = 0 + sum_list [1, 1, 3]"
    using Run_composes_stages [where dn = "()" and source = "[- 5, 3, 0, 6, 7, 9, - 3, 12]" and w = 0
      and g = "\<lambda>w. w" and ks = "[1, 1, 3]" and sts = ?sts]
    by blast
  with pre show ?thesis
    by (simp add: main_pipeline_def)
qed

section \<open>The buffering stage\<close>

lemmas stage_eval = bufferStage_output_def bufferStage_run_def NewRingIntBuffer_def bufferSize_def
  stage_start_def step_def wg_Add_def Push_def Get_locked_def go_rem_def

lemma exec_append: "exec (evs @ evs') s = exec evs' (exec evs s)"
  by (induction evs arbitrary: s) (simp_all split: option.splits)

text \<open>
  The slice \<^verbatim>\<open>Get\<close> returns shares the storage of the buffer, and the drainer reads it
  after \<^verbatim>\<open>Get\<close> has released the mutex. When the collector pushes 9 and 12 while the
  drainer is sending the slice holding 3 and 6, the drainer sends 3 and then 12; the
  item 6 is lost and 12 is sent twice.
\<close>

lemma stale_slice_read:
  "bufferStage_output
     (replicate 5 MainStep @
      [CollectorRecv, CollectorRecv, DrainerTick, DrainerLocked, DrainerNext, DrainerSend,
       CollectorRecv, CollectorRecv, DrainerNext, DrainerSend, DrainerNext,
       DrainerTick, DrainerLocked, DrainerNext, DrainerSend, DrainerNext, DrainerSend, DrainerNext])
     [3, 6, 9, 12] = [3, 12, 9, 12]"
  by (simp add: stage_eval numeral_eq_Suc)

text \<open>
  The two steps in which the drainer runs \<^verbatim>\<open>buffer.Get()\<close>, with no step of the collector
  in between, do what \<open>Get\<close> does.
\<close>

lemma drainer_runs_Get:
  assumes "crashed s = None" and "dpc s = DSelect" and "Get (buffer s) = Inr (sl, b)"
  shows "exec [DrainerTick, DrainerLocked] s =
           (case sl of NilSlice \<Rightarrow> s | ArraySlice n \<Rightarrow> s\<lparr>buffer := b, dpc := DRange 0 n\<rparr>)"
  using assms
  by (auto simp: step_def Get_def Get_locked_def split: if_splits)

subsection \<open>The invariant of the stage\<close>

lemma stage_inv_start: "ring_inv b \<Longrightarrow> stage_inv (stage_start inp b)"
  by (simp add: stage_inv_def stage_start_def)

lemma step_crashed: "step e s = Some s' \<Longrightarrow> crashed s = None"
  by (simp add: step_def split: if_splits)

lemma step_MainStep:
  assumes "step MainStep s = Some s'" and "0 \<le> wg s"
  shows "main_pc s < 5 \<and> s' =
     (if main_pc s = 0 then s\<lparr>wg := wg s + 1, main_pc := 1\<rparr>
      else if main_pc s = 1 then s\<lparr>cpc := CSelect, main_pc := 2\<rparr>
      else if main_pc s = 2 then s\<lparr>wg := wg s + 1, main_pc := 3\<rparr>
      else if main_pc s = 3 then s\<lparr>dpc := DSelect, main_pc := 4\<rparr>
      else s\<lparr>wpc := WWait, main_pc := 5\<rparr>)"
proof -
  have c: "crashed s = None" using assms(1) by (rule step_crashed)
  have w: "wg_Add 1 s = s\<lparr>wg := wg s + 1\<rparr>" using assms(2) by (simp add: wg_Add_def)
  have m: "main_pc s = 0 \<or> main_pc s = 1 \<or> main_pc s = 2 \<or> main_pc s = 3 \<or> main_pc s = 4"
    using assms(1) c by (simp add: step_def split: if_splits)
  then show ?thesis
    using assms(1) c w by (elim disjE) (simp_all add: step_def)
qed

lemma stage_inv_MainStep:
  assumes "stage_inv s" and "step MainStep s = Some s'"
  shows "stage_inv s'"
proof -
  have w: "0 \<le> wg s" using assms(1) by (simp add: stage_inv_def)
  note s' = step_MainStep [OF assms(2) w]
  then have m: "main_pc s = 0 \<or> main_pc s = 1 \<or> main_pc s = 2 \<or> main_pc s = 3 \<or> main_pc s = 4"
    by arith
  then show ?thesis
  proof (elim disjE)
    assume "main_pc s = 0"
    then show ?thesis using assms(1) s' by (simp add: stage_inv_def)
  next
    assume "main_pc s = 1"
    then show ?thesis using assms(1) s' by (simp add: stage_inv_def)
  next
    assume "main_pc s = 2"
    then show ?thesis using assms(1) s' by (simp add: stage_inv_def)
  next
    assume "main_pc s = 3"
    then show ?thesis using assms(1) s' by (simp add: stage_inv_def)
  next
    assume "main_pc s = 4"
    then show ?thesis using assms(1) s' by (simp add: stage_inv_def)
  qed
qed


lemma step_Cancel: "step Cancel s = Some s' \<Longrightarrow> s' = s\<lparr>cancelled := True\<rparr>"
  by (simp add: step_def split: if_splits)

lemma stage_inv_Cancel: "stage_inv s \<Longrightarrow> step Cancel s = Some s' \<Longrightarrow> stage_inv s'"
  by (drule step_Cancel) (simp add: stage_inv_def)

lemma length_Push: "Push r el = Inr r' \<Longrightarrow> length (array r') = length (array r)"
  by (auto simp: Push_def Let_def split: if_splits)

text \<open>A started worker that has not exited keeps the counter positive.\<close>

lemma wg_collector: "stage_inv s \<Longrightarrow> cpc s = CSelect \<Longrightarrow> 1 \<le> wg s \<and> 2 \<le> main_pc s"
  by (cases "main_pc s \<le> 1") (simp_all add: stage_inv_def)

lemma wg_drainer:
  "stage_inv s \<Longrightarrow> dpc s \<noteq> DNotStarted \<Longrightarrow> dpc s \<noteq> DExited \<Longrightarrow> 1 \<le> wg s \<and> 4 \<le> main_pc s"
  by (cases "main_pc s \<le> 3") (simp_all add: stage_inv_def)

lemma stage_inv_collector_exit:
  assumes "stage_inv s" and "cpc s = CSelect"
  shows "stage_inv (wg_Add (- 1) (s\<lparr>cpc := CExited\<rparr>))"
proof -
  have w: "1 \<le> wg s" "2 \<le> main_pc s" using wg_collector [OF assms] by simp_all
  then have "wg_Add (- 1) (s\<lparr>cpc := CExited\<rparr>) = s\<lparr>cpc := CExited, wg := wg s - 1\<rparr>"
    by (simp add: wg_Add_def)
  moreover have "wpc s \<noteq> WClose" "wpc s \<noteq> WExited"
    using assms by (auto simp: stage_inv_def)
  ultimately show ?thesis
    using assms w by (simp add: stage_inv_def)
qed

lemma stage_inv_CollectorRecv:
  assumes "stage_inv s" and "step CollectorRecv s = Some s'"
  shows "stage_inv s'"
proof -
  have c: "crashed s = None" using assms(2) by (rule step_crashed)
  have p: "cpc s = CSelect" using assms(2) c by (simp add: step_def split: if_splits)
  show ?thesis
  proof (cases "input s")
    case Nil
    then have "s' = wg_Add (- 1) (s\<lparr>cpc := CExited\<rparr>)"
      using assms(2) c p by (simp add: step_def)
    then show ?thesis using stage_inv_collector_exit [OF assms(1) p] by simp
  next
    case (Cons data rest)
    from assms(1) have r: "ring_inv (buffer s)" by (simp add: stage_inv_def)
    obtain b where b: "Push (buffer s) data = Inr b"
      using Push_ok [OF r] by blast
    have rb: "ring_inv b" using r b by (rule ring_inv_Push)
    have lb: "length (array b) = length (array (buffer s))" using b by (rule length_Push)
    have "s' = s\<lparr>buffer := b, input := rest\<rparr>"
      using assms(2) c p Cons b by (simp add: step_def)
    then show ?thesis
      using assms(1) rb lb by (simp add: stage_inv_def)
  qed
qed

lemma stage_inv_CollectorDone:
  assumes "stage_inv s" and "step CollectorDone s = Some s'"
  shows "stage_inv s'"
proof -
  have c: "crashed s = None" using assms(2) by (rule step_crashed)
  have p: "cpc s = CSelect" using assms(2) c by (simp add: step_def split: if_splits)
  have "s' = wg_Add (- 1) (s\<lparr>cpc := CExited\<rparr>)"
    using assms(2) c p by (simp add: step_def split: if_splits)
  then show ?thesis using stage_inv_collector_exit [OF assms(1) p] by simp
qed

lemma stage_inv_DrainerTick:
  assumes "stage_inv s" and "step DrainerTick s = Some s'"
  shows "stage_inv s'"
proof -
  have c: "crashed s = None" using assms(2) by (rule step_crashed)
  have p: "dpc s = DSelect" using assms(2) c by (simp add: step_def split: if_splits)
  have "s' = s \<or> s' = s\<lparr>dpc := DGet\<rparr>"
    using assms(2) c p by (simp add: step_def split: if_splits)
  then show ?thesis
    using assms(1) p by (elim disjE) (simp_all add: stage_inv_def)
qed

lemma stage_inv_DrainerLocked:
  assumes "stage_inv s" and "step DrainerLocked s = Some s'"
  shows "stage_inv s'"
proof -
  have c: "crashed s = None" using assms(2) by (rule step_crashed)
  have p: "dpc s = DGet" using assms(2) c by (simp add: step_def split: if_splits)
  from assms(1) have r: "ring_inv (buffer s)" by (simp add: stage_inv_def)
  then have g: "Get_locked (buffer s)
      = Inr (ArraySlice (nat (pos (buffer s) + 1)), (buffer s)\<lparr>pos := - 1\<rparr>)"
    by (simp add: Get_locked_def ring_inv_def)
  have r': "ring_inv ((buffer s)\<lparr>pos := - 1\<rparr>)"
    and n: "nat (pos (buffer s) + 1) \<le> length (array (buffer s))"
    using r by (auto simp: ring_inv_def)
  have "s' = s\<lparr>buffer := (buffer s)\<lparr>pos := - 1\<rparr>, dpc := DRange 0 (nat (pos (buffer s) + 1))\<rparr>"
    using assms(2) c p g by (simp add: step_def)
  then show ?thesis
    using assms(1) p r' n by (simp add: stage_inv_def)
qed

lemma stage_inv_DrainerNext:
  assumes "stage_inv s" and "step DrainerNext s = Some s'"
  shows "stage_inv s'"
proof -
  have c: "crashed s = None" using assms(2) by (rule step_crashed)
  obtain i n where p: "dpc s = DRange i n"
    using assms(2) c by (cases "dpc s") (simp_all add: step_def)
  have "s' = (if i < n then s\<lparr>dpc := DSend (array (buffer s) ! i) i n\<rparr> else s\<lparr>dpc := DSelect\<rparr>)"
    using assms(2) c p by (auto simp: step_def split: if_splits)
  then show ?thesis
    using assms(1) p by (simp add: stage_inv_def)
qed

lemma stage_inv_DrainerSend:
  assumes "stage_inv s" and "step DrainerSend s = Some s'"
  shows "stage_inv s'"
proof -
  have c: "crashed s = None" using assms(2) by (rule step_crashed)
  obtain v i n where p: "dpc s = DSend v i n"
    using assms(2) c by (cases "dpc s") (simp_all add: step_def)
  have o: "\<not> output_closed s" using assms(1) p by (auto simp: stage_inv_def)
  have "s' = s\<lparr>emitted := emitted s @ [v], dpc := DRange (Suc i) n\<rparr>"
    using assms(2) c p o by (simp add: step_def)
  then show ?thesis
    using assms(1) p by (simp add: stage_inv_def)
qed

lemma stage_inv_DrainerDone:
  assumes "stage_inv s" and "step DrainerDone s = Some s'"
  shows "stage_inv s'"
proof -
  have c: "crashed s = None" using assms(2) by (rule step_crashed)
  have p: "in_select (dpc s)" using assms(2) c by (simp add: step_def split: if_splits)
  then have ne: "dpc s \<noteq> DNotStarted" "dpc s \<noteq> DExited" by auto
  have w: "1 \<le> wg s" "4 \<le> main_pc s" using wg_drainer [OF assms(1) ne] by simp_all
  have "s' = wg_Add (- 1) (s\<lparr>dpc := DExited\<rparr>)"
    using assms(2) c p by (simp add: step_def split: if_splits)
  then have s': "s' = s\<lparr>dpc := DExited, wg := wg s - 1\<rparr>"
    using w by (simp add: wg_Add_def)
  have "wpc s \<noteq> WClose" "wpc s \<noteq> WExited"
    using assms(1) ne by (auto simp: stage_inv_def)
  then show ?thesis
    using assms(1) ne w s' by (simp add: stage_inv_def)
qed

lemma stage_inv_CloserWake:
  assumes "stage_inv s" and "step CloserWake s = Some s'"
  shows "stage_inv s'"
proof -
  have c: "crashed s = None" using assms(2) by (rule step_crashed)
  have p: "wpc s = WWait" "wg s = 0" using assms(2) c by (simp_all add: step_def split: if_splits)
  have m: "main_pc s = 5" using assms(1) p by (simp add: stage_inv_def)
  have e: "cpc s = CExited" "dpc s = DExited"
    using assms(1) p m by (simp_all add: stage_inv_def split: if_splits)
  have "s' = s\<lparr>wpc := WClose\<rparr>"
    using assms(2) c p by (simp add: step_def)
  then show ?thesis
    using assms(1) p m e by (simp add: stage_inv_def)
qed

lemma stage_inv_CloserClose:
  assumes "stage_inv s" and "step CloserClose s = Some s'"
  shows "stage_inv s'"
proof -
  have c: "crashed s = None" using assms(2) by (rule step_crashed)
  have p: "wpc s = WClose" using assms(2) c by (simp add: step_def split: if_splits)
  have o: "\<not> output_closed s" using assms(1) p by (simp add: stage_inv_def)
  have "s' = s\<lparr>output_closed := True, closes := Suc (closes s), wpc := WExited\<rparr>"
    using assms(2) c p o by (simp add: step_def)
  then show ?thesis
    using assms(1) p by (simp add: stage_inv_def)
qed

lemma stage_inv_step: "stage_inv s \<Longrightarrow> step e s = Some s' \<Longrightarrow> stage_inv s'"
proof (cases e)
qed (blast intro: stage_inv_MainStep stage_inv_Cancel stage_inv_CollectorRecv
      stage_inv_CollectorDone stage_inv_DrainerTick stage_inv_DrainerLocked
      stage_inv_DrainerNext stage_inv_DrainerSend stage_inv_DrainerDone
      stage_inv_CloserWake stage_inv_CloserClose)+

lemma stage_inv_exec: "stage_inv s \<Longrightarrow> stage_inv (exec evs s)"
proof (induction evs arbitrary: s)
  case Nil
  then show ?case by simp
next
  case (Cons e evs)
  show ?case
  proof (cases "step e s")
    case None
    then show ?thesis using Cons by simp
  next
    case (Some s')
    then have "stage_inv s'" using Cons.prems by (blast intro: stage_inv_step)
    then show ?thesis using Cons.IH Some by simp
  qed
qed


lemma closed_state:
  assumes "stage_inv s" and "output_closed s"
  shows "wpc s = WExited" and "cpc s = CExited" and "dpc s = DExited" and "main_pc s = 5"
    and "wg s = 0" and "closes s = 1"
proof -
  show w: "wpc s = WExited" using assms by (simp add: stage_inv_def)
  show c: "cpc s = CExited" and d: "dpc s = DExited" using assms(1) w by (simp_all add: stage_inv_def)
  have "\<not> main_pc s \<le> 4" using assms(1) w by (simp add: stage_inv_def)
  moreover have "main_pc s \<le> 5" using assms(1) by (simp add: stage_inv_def)
  ultimately show "main_pc s = 5" by arith
  show "wg s = 0" using assms(1) c d by (simp add: stage_inv_def)
  show "closes s = 1" using assms(1) w by (simp add: stage_inv_def)
qed

lemma closed_quiescent:
  assumes "stage_inv s" and "output_closed s"
  shows "quiescent s"
  using closed_state [OF assms]
  by (simp add: quiescent_def worker_events_def step_def)

lemma closed_step:
  assumes "stage_inv s" and "output_closed s" and "step e s = Some s'"
  shows "output_closed s' \<and> emitted s' = emitted s \<and> closes s' = closes s"
proof -
  have q: "list_all (\<lambda>e. step e s = None) worker_events"
    using closed_quiescent [OF assms(1,2)] by (simp add: quiescent_def)
  have "e = Cancel"
    using q assms(3) by (cases e) (simp_all add: worker_events_def)
  then have "s' = s\<lparr>cancelled := True\<rparr>"
    using assms(3) by (simp add: step_Cancel)
  then show ?thesis using assms(2) by simp
qed

lemma closed_exec:
  assumes "stage_inv s" and "output_closed s"
  shows "output_closed (exec evs s) \<and> emitted (exec evs s) = emitted s
         \<and> closes (exec evs s) = closes s"
  using assms
proof (induction evs arbitrary: s)
  case Nil
  then show ?case by simp
next
  case (Cons e evs)
  show ?case
  proof (cases "step e s")
    case None
    then show ?thesis using Cons by simp
  next
    case (Some s')
    have i: "stage_inv s'" using Cons.prems(1) Some by (rule stage_inv_step)
    have c: "output_closed s' \<and> emitted s' = emitted s \<and> closes s' = closes s"
      using Cons.prems Some by (rule closed_step)
    then show ?thesis using Cons.IH [OF i] Some by simp
  qed
qed

lemma join_before_close:
  assumes "stage_inv s" and "step CloserWake s \<noteq> None \<or> step CloserClose s \<noteq> None"
  shows "cpc s = CExited \<and> dpc s = DExited \<and> wg s = 0 \<and> \<not> output_closed s"
proof -
  from assms(2) have "wpc s = WWait \<and> wg s = 0 \<or> wpc s = WClose"
    by (auto simp: step_def split: if_splits)
  then show ?thesis
  proof
    assume p: "wpc s = WWait \<and> wg s = 0"
    then have m: "main_pc s = 5" using assms(1) by (simp add: stage_inv_def)
    show ?thesis using assms(1) p m by (simp add: stage_inv_def split: if_splits)
  next
    assume p: "wpc s = WClose"
    then have "cpc s = CExited" "dpc s = DExited" "\<not> output_closed s"
      using assms(1) by (simp_all add: stage_inv_def)
    then show ?thesis using assms(1) by (simp add: stage_inv_def)
  qed
qed

lemma cancelled_quiescent:
  assumes "stage_inv s" and "cancelled s" and "quiescent s"
  shows "output_closed s \<and> closes s = 1"
proof -
  have c: "crashed s = None" using assms(1) by (simp add: stage_inv_def)
  have q: "step MainStep s = None" "step CollectorDone s = None" "step DrainerTick s = None"
    "step DrainerLocked s = None" "step DrainerNext s = None" "step DrainerDone s = None"
    "step CloserWake s = None" "step CloserClose s = None"
    using assms(3) by (simp_all add: quiescent_def worker_events_def)
  have m: "main_pc s = 5"
  proof -
    have "\<not> main_pc s < 5" using q(1) c by (auto simp: step_def split: if_splits)
    moreover have "main_pc s \<le> 5" using assms(1) by (simp add: stage_inv_def)
    ultimately show ?thesis by arith
  qed
  have ce: "cpc s = CExited"
  proof -
    have "cpc s \<noteq> CSelect" using q(2) c assms(2) by (simp add: step_def split: if_splits)
    moreover have "cpc s \<noteq> CNotStarted" using assms(1) m by (simp add: stage_inv_def)
    ultimately show ?thesis by (cases "cpc s") simp_all
  qed
  have de: "dpc s = DExited"
  proof -
    have "dpc s \<noteq> DNotStarted" using assms(1) m by (simp add: stage_inv_def)
    then show ?thesis
      using q(3,4,5,6) c assms(2)
      by (cases "dpc s")
        (simp_all add: step_def split: if_splits sum.splits prod.splits slice.splits)
  qed
  have w: "wg s = 0" using assms(1) ce de by (simp add: stage_inv_def)
  have "wpc s \<noteq> WNotStarted" using assms(1) m by (simp add: stage_inv_def)
  moreover have "wpc s \<noteq> WWait" using q(7) c w by (simp add: step_def split: if_splits)
  moreover have "wpc s \<noteq> WClose" using q(8) c by (simp add: step_def split: if_splits)
  ultimately have "wpc s = WExited" by (cases "wpc s") simp_all
  then show ?thesis using assms(1) by (simp add: stage_inv_def)
qed

lemma bufferStage_run_eq:
  "bufferStage_run evs inp
     = Inr (exec evs (stage_start inp \<lparr>array = replicate 10 0, pos = - 1, size_rb = 10\<rparr>))"
  by (simp add: bufferStage_run_def NewRingIntBuffer_def bufferSize_def)

lemma stage_inv_run: "bufferStage_run evs inp = Inr s \<Longrightarrow> stage_inv s"
proof -
  assume "bufferStage_run evs inp = Inr s"
  then have s: "s = exec evs (stage_start inp \<lparr>array = replicate 10 0, pos = - 1, size_rb = 10\<rparr>)"
    by (simp add: bufferStage_run_eq)
  have "ring_inv \<lparr>array = replicate 10 0, pos = - 1, size_rb = 10\<rparr>"
    by (simp add: ring_inv_def)
  then show ?thesis
    unfolding s by (intro stage_inv_exec stage_inv_start)
qed

subsection \<open>Shutting the stage down\<close>

lemma exec_single: "exec [e] s = (case step e s of None \<Rightarrow> s | Some s' \<Rightarrow> s')"
  by (simp split: option.splits)

text \<open>The caller finishes starting the goroutines.\<close>

lemma MainStep_advances:
  assumes "stage_inv s"
  shows "stage_inv (exec [MainStep] s) \<and> main_pc (exec [MainStep] s) = min 5 (Suc (main_pc s))"
proof -
  have i: "stage_inv (exec [MainStep] s)" using assms by (rule stage_inv_exec)
  have c: "crashed s = None" and w: "0 \<le> wg s" and m: "main_pc s \<le> 5"
    using assms by (simp_all add: stage_inv_def)
  have "main_pc (exec [MainStep] s) = min 5 (Suc (main_pc s))"
  proof (cases "step MainStep s")
    case None
    then have "\<not> main_pc s < 5" using c by (auto simp: step_def split: if_splits)
    then show ?thesis using None m by simp
  next
    case (Some s')
    from step_MainStep [OF Some w] show ?thesis
      using Some by (auto split: if_splits)
  qed
  with i show ?thesis by simp
qed

lemma MainStep_finishes:
  assumes "stage_inv s"
  shows "stage_inv (exec (replicate k MainStep) s)
         \<and> main_pc (exec (replicate k MainStep) s) = min 5 (main_pc s + k)"
  using assms
proof (induction k arbitrary: s)
  case 0
  then show ?case by (simp add: stage_inv_def)
next
  case (Suc k)
  let ?s1 = "exec [MainStep] s"
  have 1: "stage_inv ?s1" "main_pc ?s1 = min 5 (Suc (main_pc s))"
    using MainStep_advances [OF Suc.prems] by simp_all
  have "exec (replicate (Suc k) MainStep) s = exec (replicate k MainStep) ?s1"
    by (simp split: option.splits)
  then show ?case using Suc.IH [OF 1(1)] 1(2) by auto
qed

lemma started_after_setup: "stage_inv s \<Longrightarrow> started (exec (replicate 5 MainStep) s)"
  using MainStep_finishes [of s 5] by (simp add: started_def)

lemma shutdown_Cancel:
  assumes "started s"
  shows "started (exec [Cancel] s) \<and> cancelled (exec [Cancel] s)"
proof -
  have i: "stage_inv (exec [Cancel] s)" using assms by (simp only: started_def stage_inv_exec)
  have c: "crashed s = None" using assms by (simp add: started_def stage_inv_def)
  have "main_pc (exec [Cancel] s) = main_pc s \<and> cancelled (exec [Cancel] s)"
    using c by (cases "cancelled s") (simp_all add: step_def)
  then show ?thesis using assms i by (simp add: started_def)
qed

lemma shutdown_CollectorDone:
  assumes "started s" and "cancelled s"
  shows "started (exec [CollectorDone] s) \<and> cancelled (exec [CollectorDone] s)
         \<and> cpc (exec [CollectorDone] s) = CExited"
proof -
  have i: "stage_inv (exec [CollectorDone] s)" using assms by (simp only: started_def stage_inv_exec)
  have c: "crashed s = None" and n: "cpc s \<noteq> CNotStarted"
    using assms by (simp_all add: started_def stage_inv_def)
  have "main_pc (exec [CollectorDone] s) = main_pc s \<and> cancelled (exec [CollectorDone] s)
        \<and> cpc (exec [CollectorDone] s) = CExited"
    using c n assms(2) by (cases "cpc s") (simp_all add: step_def wg_Add_def)
  then show ?thesis using assms i by (simp add: started_def)
qed

lemma shutdown_DrainerLocked:
  assumes "started s" and "cancelled s" and "cpc s = CExited"
  shows "started (exec [DrainerLocked] s) \<and> cancelled (exec [DrainerLocked] s)
         \<and> cpc (exec [DrainerLocked] s) = CExited \<and> dpc (exec [DrainerLocked] s) \<noteq> DGet"
proof -
  have i: "stage_inv (exec [DrainerLocked] s)" using assms by (simp only: started_def stage_inv_exec)
  have c: "crashed s = None" and r: "ring_inv (buffer s)"
    using assms by (simp_all add: started_def stage_inv_def)
  have g: "Get_locked (buffer s)
      = Inr (ArraySlice (nat (pos (buffer s) + 1)), (buffer s)\<lparr>pos := - 1\<rparr>)"
    using r by (simp add: Get_locked_def ring_inv_def)
  have "main_pc (exec [DrainerLocked] s) = main_pc s \<and> cancelled (exec [DrainerLocked] s)
        \<and> cpc (exec [DrainerLocked] s) = CExited \<and> dpc (exec [DrainerLocked] s) \<noteq> DGet"
    using c g assms(2,3) by (simp add: step_def)
  then show ?thesis using assms i by (simp add: started_def)
qed

lemma shutdown_DrainerNext:
  assumes "started s" and "cancelled s" and "cpc s = CExited" and "dpc s \<noteq> DGet"
  shows "started (exec [DrainerNext] s) \<and> cancelled (exec [DrainerNext] s)
         \<and> cpc (exec [DrainerNext] s) = CExited
         \<and> (in_select (dpc (exec [DrainerNext] s)) \<or> dpc (exec [DrainerNext] s) = DExited)"
proof -
  have i: "stage_inv (exec [DrainerNext] s)" using assms by (simp only: started_def stage_inv_exec)
  have c: "crashed s = None" and n: "dpc s \<noteq> DNotStarted"
    using assms by (simp_all add: started_def stage_inv_def)
  have "main_pc (exec [DrainerNext] s) = main_pc s \<and> cancelled (exec [DrainerNext] s)
        \<and> cpc (exec [DrainerNext] s) = CExited
        \<and> (in_select (dpc (exec [DrainerNext] s)) \<or> dpc (exec [DrainerNext] s) = DExited)"
    using c n assms(2,3,4) by (cases "dpc s") (simp_all add: step_def)
  then show ?thesis using assms i by (simp add: started_def)
qed

lemma shutdown_DrainerDone:
  assumes "started s" and "cancelled s" and "cpc s = CExited"
    and "in_select (dpc s) \<or> dpc s = DExited"
  shows "started (exec [DrainerDone] s) \<and> cpc (exec [DrainerDone] s) = CExited
         \<and> dpc (exec [DrainerDone] s) = DExited"
proof -
  have i: "stage_inv (exec [DrainerDone] s)" using assms by (simp only: started_def stage_inv_exec)
  have c: "crashed s = None"
    using assms by (simp_all add: started_def stage_inv_def)
  have "main_pc (exec [DrainerDone] s) = main_pc s \<and> cpc (exec [DrainerDone] s) = CExited
        \<and> dpc (exec [DrainerDone] s) = DExited"
    using c assms(2,3,4) by (auto simp: step_def wg_Add_def)
  then show ?thesis using assms i by (simp add: started_def)
qed

lemma shutdown_Closer:
  assumes "started s" and "cpc s = CExited" and "dpc s = DExited"
  shows "output_closed (exec [CloserWake, CloserClose] s) \<and> closes (exec [CloserWake, CloserClose] s) = 1"
proof -
  have i: "stage_inv (exec [CloserWake, CloserClose] s)"
    using assms by (simp only: started_def stage_inv_exec)
  have c: "crashed s = None" and w: "wg s = 0" and n: "wpc s \<noteq> WNotStarted"
    and o: "output_closed s \<longleftrightarrow> wpc s = WExited"
    using assms by (simp_all add: started_def stage_inv_def)
  have "wpc (exec [CloserWake, CloserClose] s) = WExited"
    using c w n o by (cases "wpc s") (simp_all add: step_def)
  then show ?thesis using i by (simp add: stage_inv_def)
qed

lemma shutdown_closes:
  assumes "stage_inv s"
  shows "output_closed (exec shutdown s) \<and> closes (exec shutdown s) = 1"
proof -
  let ?s1 = "exec (replicate 5 MainStep) s"
  let ?s2 = "exec [Cancel] ?s1"
  let ?s3 = "exec [CollectorDone] ?s2"
  let ?s4 = "exec [DrainerLocked] ?s3"
  let ?s5 = "exec [DrainerNext] ?s4"
  let ?s6 = "exec [DrainerDone] ?s5"
  have 1: "started ?s1" using assms by (rule started_after_setup)
  have 2: "started ?s2" "cancelled ?s2" using shutdown_Cancel [OF 1] by blast+
  have 3: "started ?s3" "cancelled ?s3" "cpc ?s3 = CExited"
    using shutdown_CollectorDone [OF 2] by blast+
  have 4: "started ?s4" "cancelled ?s4" "cpc ?s4 = CExited" "dpc ?s4 \<noteq> DGet"
    using shutdown_DrainerLocked [OF 3] by blast+
  have 5: "started ?s5" "cancelled ?s5" "cpc ?s5 = CExited"
    "in_select (dpc ?s5) \<or> dpc ?s5 = DExited"
    using shutdown_DrainerNext [OF 4] by blast+
  have 6: "started ?s6" "cpc ?s6 = CExited" "dpc ?s6 = DExited"
    using shutdown_DrainerDone [OF 5] by blast+
  have e: "exec shutdown s = exec [CloserWake, CloserClose] ?s6"
    unfolding shutdown_def exec_append [symmetric] by simp
  show ?thesis unfolding e using 6 by (rule shutdown_Closer)
qed


subsection \<open>No close without a cancellation\<close>

text \<open>Without a cancellation the drainer never returns, and the output is never closed.\<close>

lemma running_step:
  assumes "\<not> cancelled s \<and> dpc s \<noteq> DExited" and "e \<noteq> Cancel" and "step e s = Some s'"
  shows "\<not> cancelled s' \<and> dpc s' \<noteq> DExited"
proof (cases e)
  case MainStep
  then show ?thesis using assms
    by (auto simp: step_def wg_Add_def split: if_splits)
next
  case Cancel
  then show ?thesis using assms by simp
next
  case CollectorRecv
  then show ?thesis using assms
    by (auto simp: step_def wg_Add_def split: if_splits list.splits sum.splits)
next
  case CollectorDone
  then show ?thesis using assms by (auto simp: step_def wg_Add_def split: if_splits)
next
  case DrainerTick
  then show ?thesis using assms by (auto simp: step_def split: if_splits)
next
  case DrainerLocked
  show ?thesis
  proof (cases "Get_locked (buffer s)")
    case (Inl err)
    then show ?thesis using assms DrainerLocked
      by (auto simp: step_def split: if_splits)
  next
    case (Inr res)
    obtain sl b where res: "res = (sl, b)" by (cases res)
    show ?thesis using assms DrainerLocked Inr res
      by (cases sl) (auto simp: step_def split: if_splits)
  qed
next
  case DrainerNext
  then show ?thesis using assms by (cases "dpc s") (auto simp: step_def split: if_splits)
next
  case DrainerSend
  then show ?thesis using assms by (cases "dpc s") (auto simp: step_def split: if_splits)
next
  case DrainerDone
  then show ?thesis using assms by (auto simp: step_def wg_Add_def split: if_splits)
next
  case CloserWake
  then show ?thesis using assms by (auto simp: step_def split: if_splits)
next
  case CloserClose
  then show ?thesis using assms by (auto simp: step_def split: if_splits)
qed

lemma running_exec:
  assumes "\<not> cancelled s \<and> dpc s \<noteq> DExited" and "Cancel \<notin> set evs"
  shows "\<not> cancelled (exec evs s) \<and> dpc (exec evs s) \<noteq> DExited"
  using assms
proof (induction evs arbitrary: s)
  case Nil
  then show ?case by simp
next
  case (Cons e evs)
  show ?case
  proof (cases "step e s")
    case None
    then show ?thesis using Cons by simp
  next
    case (Some s')
    have ne: "e \<noteq> Cancel" using Cons.prems(2) by auto
    have "\<not> cancelled s' \<and> dpc s' \<noteq> DExited"
      using Cons.prems(1) ne Some by (rule running_step)
    then show ?thesis using Cons.IH [of s'] Cons.prems(2) Some by simp
  qed
qed

lemma never_closed_without_cancel:
  assumes "bufferStage_run evs inp = Inr s" and "Cancel \<notin> set evs"
  shows "\<not> output_closed s \<and> closes s = 0"
proof -
  have i: "stage_inv s" using assms(1) by (rule stage_inv_run)
  have s: "s = exec evs (stage_start inp \<lparr>array = replicate 10 0, pos = - 1, size_rb = 10\<rparr>)"
    using assms(1) by (simp add: bufferStage_run_eq)
  let ?s0 = "stage_start inp \<lparr>array = replicate 10 0, pos = - 1, size_rb = 10\<rparr>"
  have "\<not> cancelled ?s0 \<and> dpc ?s0 \<noteq> DExited" by (simp add: stage_start_def)
  then have "dpc s \<noteq> DExited"
    unfolding s using assms(2) running_exec by blast
  moreover have "wpc s = WClose \<or> wpc s = WExited \<longrightarrow> cpc s = CExited \<and> dpc s = DExited"
    using i by (simp add: stage_inv_def)
  ultimately have "wpc s \<noteq> WExited" by blast
  then show ?thesis using i by (simp add: stage_inv_def)
qed


subsection \<open>Closing the output\<close>

text \<open>
  Claim C9, as amended. In every state the buffering stage reaches, on every schedule:
  nothing has panicked (no send on a closed channel, no second \<^verbatim>\<open>close\<close>, no negative
  counter); \<^verbatim>\<open>output\<close> has been closed at most once, and it is closed exactly when it has
  been closed once; \<^verbatim>\<open>wg.Wait()\<close> can return and \<^verbatim>\<open>close(output)\<close> can run only when the
  collector and the drainer have both returned; once \<^verbatim>\<open>output\<close> is closed both workers
  have returned, no send and no \<^verbatim>\<open>close\<close> is enabled, and whatever is scheduled afterwards
  sends nothing and closes nothing. The close is produced by a cancellation: from every
  state reached, the schedule \<open>shutdown\<close> (which closes \<^verbatim>\<open>done\<close> and lets every goroutine
  run) ends with \<^verbatim>\<open>output\<close> closed once, and when \<^verbatim>\<open>done\<close> is closed and no thread of the
  stage can take a step, \<^verbatim>\<open>output\<close> has been closed once. Without a cancellation the
  drainer never returns and \<^verbatim>\<open>output\<close> is never closed.
\<close>

theorem output_closed_after_join:
  assumes "bufferStage_run evs inp = Inr s"
  shows "crashed s = None \<and> closes s \<le> 1 \<and> (output_closed s \<longleftrightarrow> closes s = 1)
     \<and> (step CloserWake s \<noteq> None \<or> step CloserClose s \<noteq> None
          \<longrightarrow> cpc s = CExited \<and> dpc s = DExited \<and> wg s = 0 \<and> \<not> output_closed s)
     \<and> (output_closed s \<longrightarrow> cpc s = CExited \<and> dpc s = DExited \<and> wg s = 0
          \<and> step DrainerSend s = None \<and> step CloserClose s = None
          \<and> emitted (exec evs' s) = emitted s \<and> closes (exec evs' s) = 1)
     \<and> (cancelled s \<and> quiescent s \<longrightarrow> output_closed s \<and> closes s = 1)
     \<and> output_closed (exec shutdown s) \<and> closes (exec shutdown s) = 1
     \<and> (Cancel \<notin> set evs \<longrightarrow> \<not> output_closed s \<and> closes s = 0)"
proof -
  have i: "stage_inv s" using assms by (rule stage_inv_run)
  have 1: "crashed s = None" "closes s \<le> 1" "output_closed s \<longleftrightarrow> closes s = 1"
    using i by (simp_all add: stage_inv_def)
  have 2: "step CloserWake s \<noteq> None \<or> step CloserClose s \<noteq> None
          \<longrightarrow> cpc s = CExited \<and> dpc s = DExited \<and> wg s = 0 \<and> \<not> output_closed s"
    using join_before_close [OF i] by blast
  have 3: "output_closed s \<longrightarrow> cpc s = CExited \<and> dpc s = DExited \<and> wg s = 0
          \<and> step DrainerSend s = None \<and> step CloserClose s = None
          \<and> emitted (exec evs' s) = emitted s \<and> closes (exec evs' s) = 1"
  proof
    assume o: "output_closed s"
    have "step DrainerSend s = None" "step CloserClose s = None"
      using closed_quiescent [OF i o] by (simp_all add: quiescent_def worker_events_def)
    then show "cpc s = CExited \<and> dpc s = DExited \<and> wg s = 0
          \<and> step DrainerSend s = None \<and> step CloserClose s = None
          \<and> emitted (exec evs' s) = emitted s \<and> closes (exec evs' s) = 1"
      using closed_state [OF i o] closed_exec [OF i o, of evs'] by simp
  qed
  have 4: "cancelled s \<and> quiescent s \<longrightarrow> output_closed s \<and> closes s = 1"
    using cancelled_quiescent [OF i] by blast
  have 5: "output_closed (exec shutdown s)" "closes (exec shutdown s) = 1"
    using shutdown_closes [OF i] by simp_all
  have 6: "Cancel \<notin> set evs \<longrightarrow> \<not> output_closed s \<and> closes s = 0"
    using never_closed_without_cancel [OF assms] by blast
  show ?thesis using 1 2 3 4 5 6 by blast
qed

theorem output_closed_after_join_witness:
  "bufferStage_run cancelled_run [3, 6]
     = Inr \<lparr>main_pc = 5, wg = 0, cpc = CExited, dpc = DExited, wpc = WClose,
            buffer = \<lparr>array = [3, 0, 0, 0, 0, 0, 0, 0, 0, 0], pos = - 1, size_rb = 10\<rparr>,
            input = [6], cancelled = True, output_closed = False, closes = 0,
            emitted = [3], crashed = None\<rparr>
   \<and> step CloserClose \<lparr>main_pc = 5, wg = 0, cpc = CExited, dpc = DExited, wpc = WClose,
            buffer = \<lparr>array = [3, 0, 0, 0, 0, 0, 0, 0, 0, 0], pos = - 1, size_rb = 10\<rparr>,
            input = [6], cancelled = True, output_closed = False, closes = 0,
            emitted = [3], crashed = None\<rparr> \<noteq> None
   \<and> bufferStage_run (cancelled_run @ [CloserClose]) [3, 6]
     = Inr \<lparr>main_pc = 5, wg = 0, cpc = CExited, dpc = DExited, wpc = WExited,
            buffer = \<lparr>array = [3, 0, 0, 0, 0, 0, 0, 0, 0, 0], pos = - 1, size_rb = 10\<rparr>,
            input = [6], cancelled = True, output_closed = True, closes = 1,
            emitted = [3], crashed = None\<rparr>
   \<and> quiescent \<lparr>main_pc = 5, wg = 0, cpc = CExited, dpc = DExited, wpc = WExited,
            buffer = \<lparr>array = [3, 0, 0, 0, 0, 0, 0, 0, 0, 0], pos = - 1, size_rb = 10\<rparr>,
            input = [6], cancelled = True, output_closed = True, closes = 1,
            emitted = [3], crashed = None\<rparr>
   \<and> Cancel \<notin> set (one_drain @ [CollectorRecv])
   \<and> bufferStage_run (one_drain @ [CollectorRecv]) [3, 6, 9, 12] = Inr input_exhausted
   \<and> closes input_exhausted = 0
   \<and> closes (exec shutdown input_exhausted) = 1"
proof -
  let ?s1 = "\<lparr>main_pc = 5, wg = 0, cpc = CExited, dpc = DExited, wpc = WClose,
            buffer = \<lparr>array = [3, 0, 0, 0, 0, 0, 0, 0, 0, 0], pos = - 1, size_rb = 10\<rparr>,
            input = [6], cancelled = True, output_closed = False, closes = 0,
            emitted = [3], crashed = None\<rparr>"
  let ?s2 = "\<lparr>main_pc = 5, wg = 0, cpc = CExited, dpc = DExited, wpc = WExited,
            buffer = \<lparr>array = [3, 0, 0, 0, 0, 0, 0, 0, 0, 0], pos = - 1, size_rb = 10\<rparr>,
            input = [6], cancelled = True, output_closed = True, closes = 1,
            emitted = [3], crashed = None\<rparr>"
  have r1: "bufferStage_run cancelled_run [3, 6] = Inr ?s1"
    by (simp add: cancelled_run_def stage_eval numeral_eq_Suc)
  have r2: "bufferStage_run (cancelled_run @ [CloserClose]) [3, 6] = Inr ?s2"
    by (simp add: cancelled_run_def stage_eval numeral_eq_Suc)
  have r3: "bufferStage_run (one_drain @ [CollectorRecv]) [3, 6, 9, 12] = Inr input_exhausted"
    by (simp add: one_drain_def input_exhausted_def stage_eval numeral_eq_Suc)
  have n: "Cancel \<notin> set (one_drain @ [CollectorRecv])"
    by (simp add: one_drain_def)
  have e: "step CloserClose ?s1 \<noteq> None"
    using output_closed_after_join [OF r1, of "[]"] by (simp add: step_def)
  have q: "quiescent ?s2"
    using output_closed_after_join [OF r2, of "[DrainerSend, CloserClose]"]
    by (simp add: quiescent_def worker_events_def step_def)
  have c: "closes input_exhausted = 0" "closes (exec shutdown input_exhausted) = 1"
    using output_closed_after_join [OF r3, of "[]"] n by simp_all
  show ?thesis using r1 r2 r3 n e q c by simp
qed

text \<open>
  Claim C9 as it is written fails: not every execution closes \<^verbatim>\<open>output\<close>. On the schedule
  \<open>one_drain\<close> followed by the collector finding its input closed, all four items have
  been sent and the collector has returned, \<^verbatim>\<open>output\<close> has not been closed, and the only
  step left to the stage is the timer firing on the empty buffer, which changes nothing.
\<close>

theorem output_never_closed_counterexample:
  "bufferStage_run (one_drain @ [CollectorRecv]) [3, 6, 9, 12] = Inr input_exhausted
   \<and> input input_exhausted = [] \<and> cpc input_exhausted = CExited
   \<and> emitted input_exhausted = [3, 6, 9, 12]
   \<and> closes input_exhausted = 0 \<and> \<not> output_closed input_exhausted
   \<and> step MainStep input_exhausted = None
   \<and> step CollectorRecv input_exhausted = None
   \<and> step CollectorDone input_exhausted = None
   \<and> step DrainerTick input_exhausted = Some input_exhausted
   \<and> step DrainerLocked input_exhausted = None
   \<and> step DrainerNext input_exhausted = None
   \<and> step DrainerSend input_exhausted = None
   \<and> step DrainerDone input_exhausted = None
   \<and> step CloserWake input_exhausted = None
   \<and> step CloserClose input_exhausted = None"
proof -
  have "bufferStage_run (one_drain @ [CollectorRecv]) [3, 6, 9, 12] = Inr input_exhausted"
    by (simp add: one_drain_def input_exhausted_def stage_eval numeral_eq_Suc)
  then show ?thesis
    by (simp add: input_exhausted_def step_def)
qed

subsection \<open>Nothing is sent before the timer fires\<close>

text \<open>
  On every schedule in which the timer of the drainer does not fire, whatever the
  collector has pushed, nothing is sent on \<^verbatim>\<open>output\<close>.
\<close>

lemma waiting_step:
  assumes "waiting (dpc s)" and "e \<noteq> DrainerTick" and "step e s = Some s'"
  shows "waiting (dpc s') \<and> emitted s' = emitted s"
proof (cases e)
  case MainStep
  then show ?thesis using assms
    by (auto simp: step_def wg_Add_def split: if_splits)
next
  case Cancel
  then show ?thesis using assms by (auto simp: step_def split: if_splits)
next
  case CollectorRecv
  then show ?thesis using assms
    by (auto simp: step_def wg_Add_def split: if_splits list.splits sum.splits)
next
  case CollectorDone
  then show ?thesis using assms by (auto simp: step_def wg_Add_def split: if_splits)
next
  case DrainerTick
  then show ?thesis using assms by simp
next
  case DrainerLocked
  then show ?thesis using assms by (auto simp: step_def split: if_splits)
next
  case DrainerNext
  then show ?thesis using assms by (cases "dpc s") (auto simp: step_def split: if_splits)
next
  case DrainerSend
  then show ?thesis using assms by (cases "dpc s") (auto simp: step_def split: if_splits)
next
  case DrainerDone
  then show ?thesis using assms by (auto simp: step_def wg_Add_def split: if_splits)
next
  case CloserWake
  then show ?thesis using assms by (auto simp: step_def split: if_splits)
next
  case CloserClose
  then show ?thesis using assms by (auto simp: step_def split: if_splits)
qed

lemma waiting_exec:
  assumes "waiting (dpc s)" and "DrainerTick \<notin> set evs"
  shows "waiting (dpc (exec evs s)) \<and> emitted (exec evs s) = emitted s"
  using assms
proof (induction evs arbitrary: s)
  case Nil
  then show ?case by simp
next
  case (Cons e evs)
  show ?case
  proof (cases "step e s")
    case None
    then show ?thesis using Cons by simp
  next
    case (Some s')
    have "waiting (dpc s') \<and> emitted s' = emitted s"
      using Cons.prems Some by (intro waiting_step [of s e]) auto
    then show ?thesis using Cons.IH [of s'] Cons.prems(2) Some by simp
  qed
qed

lemma no_output_before_tick:
  "DrainerTick \<notin> set evs \<Longrightarrow> bufferStage_output evs inp = []"
  using waiting_exec [of "stage_start inp \<lparr>array = replicate 10 0, pos = - 1, size_rb = 10\<rparr>" evs]
  by (simp add: bufferStage_output_def bufferStage_run_eq stage_start_def)

subsection \<open>The end-to-end scenario\<close>

text \<open>
  In a state that is \<open>drained\<close> no step sends anything, and every step leads to such a
  state: the collector has nothing to push, and \<^verbatim>\<open>Get\<close> returns \<^verbatim>\<open>nil\<close>.
\<close>

lemma drained_step:
  assumes "drained s" and "step e s = Some s'"
  shows "drained s' \<and> emitted s' = emitted s"
proof (cases e)
  case MainStep
  then show ?thesis using assms
    by (auto simp: drained_def step_def wg_Add_def split: if_splits)
next
  case Cancel
  then show ?thesis using assms by (auto simp: drained_def step_def split: if_splits)
next
  case CollectorRecv
  then show ?thesis using assms
    by (auto simp: drained_def step_def wg_Add_def split: if_splits)
next
  case CollectorDone
  then show ?thesis using assms by (auto simp: drained_def step_def wg_Add_def split: if_splits)
next
  case DrainerTick
  then show ?thesis using assms by (auto simp: drained_def step_def split: if_splits)
next
  case DrainerLocked
  then show ?thesis using assms by (auto simp: drained_def step_def split: if_splits)
next
  case DrainerNext
  then show ?thesis using assms
    by (cases "dpc s") (auto simp: drained_def step_def split: if_splits)
next
  case DrainerSend
  then show ?thesis using assms
    by (cases "dpc s") (auto simp: drained_def step_def split: if_splits)
next
  case DrainerDone
  then show ?thesis using assms by (auto simp: drained_def step_def wg_Add_def split: if_splits)
next
  case CloserWake
  then show ?thesis using assms by (auto simp: drained_def step_def split: if_splits)
next
  case CloserClose
  then show ?thesis using assms by (auto simp: drained_def step_def split: if_splits)
qed

lemma drained_exec:
  assumes "drained s"
  shows "drained (exec evs s) \<and> emitted (exec evs s) = emitted s"
  using assms
proof (induction evs arbitrary: s)
  case Nil
  then show ?case by simp
next
  case (Cons e evs)
  show ?case
  proof (cases "step e s")
    case None
    then show ?thesis using Cons by simp
  next
    case (Some s')
    have "drained s' \<and> emitted s' = emitted s"
      using Cons.prems Some by (rule drained_step)
    then show ?thesis using Cons.IH [of s'] Some by simp
  qed
qed

lemma one_drain_state:
  "exec one_drain (stage_start [3, 6, 9, 12] \<lparr>array = replicate 10 0, pos = - 1, size_rb = 10\<rparr>)
     = \<lparr>main_pc = 5, wg = 2, cpc = CSelect, dpc = DSelect, wpc = WWait,
        buffer = \<lparr>array = [3, 6, 9, 12, 0, 0, 0, 0, 0, 0], pos = - 1, size_rb = 10\<rparr>,
        input = [], cancelled = False, output_closed = False, closes = 0,
        emitted = [3, 6, 9, 12], crashed = None\<rparr>"
  by (simp add: one_drain_def stage_eval numeral_eq_Suc)

lemma one_drain_final:
  "bufferStage_output (one_drain @ evs') [3, 6, 9, 12] = [3, 6, 9, 12]"
proof -
  let ?s1 = "\<lparr>main_pc = 5, wg = 2, cpc = CSelect, dpc = DSelect, wpc = WWait,
        buffer = \<lparr>array = [3, 6, 9, 12, 0, 0, 0, 0, 0, 0], pos = - 1, size_rb = 10\<rparr>,
        input = [], cancelled = False, output_closed = False, closes = 0,
        emitted = [3, 6, 9, 12], crashed = None\<rparr>"
  have "drained ?s1" by (simp add: drained_def)
  then have "emitted (exec evs' ?s1) = emitted ?s1"
    using drained_exec by blast
  then show ?thesis
    by (simp add: bufferStage_output_def bufferStage_run_eq exec_append one_drain_state)
qed

text \<open>
  Claim C4. On the input -5, 3, 0, 6, 7, 9, -3, 12 the negative filter sends
  3, 0, 6, 7, 9, 12 (it drops -5 and -3); on that the multiple-of-three filter sends
  3, 6, 9, 12 (it drops 0 and 7). The buffering stage, given these four items, sends
  nothing on any schedule on which the timer has not fired; on the schedule \<open>one_drain\<close>,
  on which the four items are collected and the timer then fires once, it sends
  3, 6, 9, 12 in that order, and that is all it ever sends, whatever is scheduled
  afterwards (further firings of the timer included). \<open>Run\<close> on the pipeline of \<^verbatim>\<open>main\<close>
  returns that output.
\<close>

theorem end_to_end_scenario:
  "negativeFilter_loop None [- 5, 3, 0, 6, 7, 9, - 3, 12] = [3, 0, 6, 7, 9, 12]
   \<and> specialFilter_loop None [3, 0, 6, 7, 9, 12] = [3, 6, 9, 12]
   \<and> (DrainerTick \<notin> set evs \<longrightarrow> bufferStage_output evs [3, 6, 9, 12] = [])
   \<and> bufferStage_output one_drain [3, 6, 9, 12] = [3, 6, 9, 12]
   \<and> count_list one_drain DrainerTick = 1
   \<and> bufferStage_output (one_drain @ evs') [3, 6, 9, 12] = [3, 6, 9, 12]
   \<and> Run (main_pipeline None None (one_drain @ evs')) [- 5, 3, 0, 6, 7, 9, - 3, 12] 0
       = ([3, 6, 9, 12], 5)"
proof -
  have f: "negativeFilter_loop None [- 5, 3, 0, 6, 7, 9, - 3, 12] = [3, 0, 6, 7, 9, 12]"
    "specialFilter_loop None [3, 0, 6, 7, 9, 12] = [3, 6, 9, 12]"
    by (simp_all add: go_rem_def)
  have t: "DrainerTick \<notin> set evs \<longrightarrow> bufferStage_output evs [3, 6, 9, 12] = []"
    by (simp add: no_output_before_tick)
  have d: "bufferStage_output one_drain [3, 6, 9, 12] = [3, 6, 9, 12]"
    using one_drain_final [of "[]"] by simp
  have c: "count_list one_drain DrainerTick = 1"
    by (simp add: one_drain_def numeral_eq_Suc)
  have r: "Run (main_pipeline None None (one_drain @ evs')) [- 5, 3, 0, 6, 7, 9, - 3, 12] 0
       = ([3, 6, 9, 12], 5)"
    using f by (simp add: Run_def main_pipeline_def NewPipelineInt_def negativeFilterStageInt_def
        specialFilterStageInt_def bufferStageInt_def one_drain_final)
  show ?thesis using f t d c r one_drain_final [of evs'] by blast
qed

theorem end_to_end_scenario_witness:
  "DrainerTick \<notin> set (replicate 5 MainStep @ replicate 4 CollectorRecv @ [DrainerLocked, DrainerNext, DrainerSend])
   \<and> bufferStage_output (replicate 5 MainStep @ replicate 4 CollectorRecv @ [DrainerLocked, DrainerNext, DrainerSend])
        [3, 6, 9, 12] = []
   \<and> bufferStage_output (one_drain @ [DrainerNext, DrainerSend, DrainerTick, DrainerLocked, DrainerNext, DrainerSend,
         CollectorRecv, DrainerTick]) [3, 6, 9, 12] = [3, 6, 9, 12]"
  using end_to_end_scenario [of "replicate 5 MainStep @ replicate 4 CollectorRecv @ [DrainerLocked, DrainerNext, DrainerSend]"
      "[DrainerNext, DrainerSend, DrainerTick, DrainerLocked, DrainerNext, DrainerSend, CollectorRecv, DrainerTick]"]
  by simp

end
